theory Spec2Isabelle
  imports Main "HOL-Library.Word" "HOL-Library.Signed_Division"
begin

unbundle bit_operations_syntax

section \<open>Basic types of the engine\<close>

text \<open>
  The file \<^verbatim>\<open>pawns.cpp\<close> uses the engine's basic types (\<^verbatim>\<open>types.h\<close>),
  its bitboard helpers (\<^verbatim>\<open>bitboard.h\<close>) and the position interface
  (\<^verbatim>\<open>position.h\<close>).  A bitboard is a 64-bit word, bit \<open>s\<close> standing for
  square \<open>s\<close>; squares count from A1 = 0 to H8 = 63, files and ranks from 0 to 7.
\<close>

type_synonym Bitboard = "64 word"
type_synonym Key = "64 word"
type_synonym Square = nat
type_synonym File = nat
type_synonym Rank = nat
type_synonym Direction = int
type_synonym Val = int

datatype Color = WHITE | BLACK

datatype PieceType = PAWN | KNIGHT | BISHOP | ROOK | QUEEN | KING

datatype Piece = NO_PIECE | Pc Color PieceType

definition make_piece :: "Color \<Rightarrow> PieceType \<Rightarrow> Piece" where
  "make_piece c pt = Pc c pt"

definition SQ_A1 :: Square where "SQ_A1 = 0"
definition SQUARE_NB :: nat where "SQUARE_NB = 64"

definition FILE_A :: File where "FILE_A = 0"
definition FILE_B :: File where "FILE_B = 1"
definition FILE_G :: File where "FILE_G = 6"
definition FILE_H :: File where "FILE_H = 7"

definition RANK_2 :: Rank where "RANK_2 = 1"
definition RANK_3 :: Rank where "RANK_3 = 2"
definition RANK_5 :: Rank where "RANK_5 = 4"
definition RANK_7 :: Rank where "RANK_7 = 6"
definition RANK_8 :: Rank where "RANK_8 = 7"

definition NORTH :: Direction where "NORTH = 8"
definition EAST :: Direction where "EAST = 1"
definition SOUTH :: Direction where "SOUTH = - 8"
definition WEST :: Direction where "WEST = - 1"
definition NORTH_EAST :: Direction where "NORTH_EAST = 9"
definition SOUTH_EAST :: Direction where "SOUTH_EAST = - 7"
definition SOUTH_WEST :: Direction where "SOUTH_WEST = - 9"
definition NORTH_WEST :: Direction where "NORTH_WEST = 7"

fun opp :: "Color \<Rightarrow> Color" where
  "opp WHITE = BLACK"
| "opp BLACK = WHITE"

fun color_ix :: "Color \<Rightarrow> nat" where
  "color_ix WHITE = 0"
| "color_ix BLACK = 1"

definition file_of :: "Square \<Rightarrow> File" where
  "file_of s = s mod 8"

definition rank_of :: "Square \<Rightarrow> Rank" where
  "rank_of s = s div 8"

definition make_square :: "File \<Rightarrow> Rank \<Rightarrow> Square" where
  "make_square f r = r * 8 + f"

text \<open>\<^verbatim>\<open>relative_rank(c, r) = Rank(r ^ (c * 7))\<close>: for ranks 0..7 the exclusive or
  with 7 is the reflection \<open>7 - r\<close>.\<close>

definition relative_rank_r :: "Color \<Rightarrow> Rank \<Rightarrow> Rank" where
  "relative_rank_r c r = (case c of WHITE \<Rightarrow> r | BLACK \<Rightarrow> 7 - r)"

definition relative_rank :: "Color \<Rightarrow> Square \<Rightarrow> Rank" where
  "relative_rank c s = relative_rank_r c (rank_of s)"

text \<open>\<^verbatim>\<open>s + d\<close> for a square and a direction.\<close>

definition sq_add :: "Square \<Rightarrow> Direction \<Rightarrow> Square" where
  "sq_add s d = nat (int s + d)"

subsection \<open>Scores\<close>

text \<open>Modelled from the spec: a \<open>ScorePair\<close> is a pair (midgame value, endgame value),
  added and subtracted component-wise (the packed representation of \<^verbatim>\<open>types.h\<close> is
  not in the sources).\<close>

type_synonym Score = "int \<times> int"

definition make_score :: "int \<Rightarrow> int \<Rightarrow> Score" where
  "make_score m e = (m, e)"

definition SCORE_ZERO :: Score where
  "SCORE_ZERO = (0, 0)"

definition score_add :: "Score \<Rightarrow> Score \<Rightarrow> Score" where
  "score_add a b = (fst a + fst b, snd a + snd b)"

definition score_sub :: "Score \<Rightarrow> Score \<Rightarrow> Score" where
  "score_sub a b = (fst a - fst b, snd a - snd b)"

definition Isolated :: Score where "Isolated = make_score 13 16"
definition Backward :: Score where "Backward = make_score 17 11"
definition PawnScoresIsolatedRank3 :: Score where "PawnScoresIsolatedRank3 = make_score (- 5) 0"
definition PawnScoresConnectedPassed :: Score where "PawnScoresConnectedPassed = make_score (- 16) 16"
definition KingSafetyCompensationPawnScoresConnectedPassed :: Score where
  "KingSafetyCompensationPawnScoresConnectedPassed = make_score (- 5) 0"
definition ProtectedPassedPawn :: Score where "ProtectedPassedPawn = make_score 5 5"
definition Doubled :: Score where "Doubled = make_score 13 40"

section \<open>The table of connected-pawn bonuses\<close>

text \<open>\<^verbatim>\<open>Score Connected[2][2][3][RANK_NB]\<close>, a global with static storage (all zero
  before \<^verbatim>\<open>init\<close>), indexed by opposed, phalanx, support and rank.\<close>

type_synonym ConnectedTable = "nat \<times> nat \<times> nat \<times> nat \<Rightarrow> Score"

definition Connected0 :: ConnectedTable where
  "Connected0 = (\<lambda>_. SCORE_ZERO)"

definition Seed :: "int list" where
  "Seed = [0, 13, 24, 18, 65, 100, 175, 330]"

text \<open>The body of the innermost loop of \<^verbatim>\<open>Pawns::init\<close>.  C++ division truncates
  towards zero (\<open>sdiv\<close>); \<^verbatim>\<open>>>\<close> is \<open>drop_bit\<close>.\<close>

definition init_cell :: "nat \<Rightarrow> nat \<Rightarrow> nat \<Rightarrow> nat \<Rightarrow> ConnectedTable \<Rightarrow> ConnectedTable" where
  "init_cell opposed phalanx support r Connected =
     (let v = 17 * int support;
          v = v + drop_bit opposed
                    (Seed ! r + (if phalanx \<noteq> 0 then (Seed ! (r + 1) - Seed ! r) sdiv 2 else 0))
      in Connected((opposed, phalanx, support, r) := make_score v (v * (int r - 2) sdiv 4)))"

definition init :: "ConnectedTable \<Rightarrow> ConnectedTable" where
  "init Connected =
     fold (\<lambda>opposed.
       fold (\<lambda>phalanx.
         fold (\<lambda>support.
           fold (\<lambda>r. init_cell opposed phalanx support r) [RANK_2 ..< RANK_8])
         [0 ..< 3])
       [0 ..< 2])
     [0 ..< 2] Connected"

definition Connected :: ConnectedTable where
  "Connected = init Connected0"

text \<open>The formula as the specification words it: the shift applied to the whole sum,
  the seed sequence and the endgame factor read with the board rank 1..8.\<close>

definition spec_connected :: "nat \<Rightarrow> nat \<Rightarrow> nat \<Rightarrow> nat \<Rightarrow> Score" where
  "spec_connected opposed phalanx supportCount rank =
     (let v = drop_bit opposed
                (17 * int supportCount
                 + (Seed ! (rank - 1)
                    + (if phalanx \<noteq> 0 then (Seed ! rank - Seed ! (rank - 1)) sdiv 2 else 0)))
      in (v, v * (int rank - 2) sdiv 4))"


section \<open>Bitboard helpers\<close>

text \<open>Modelled from the spec: the bit-set board model of sections 2 and 6 (file, rank,
  adjacent-files, forward-ranks, forward-file, attack-span and passed-pawn-corridor
  masks, shift by a direction, population count, first element, light/dark mask).  Their
  code (\<^verbatim>\<open>bitboard.h\<close>) is not in the sources; the definitions follow the
  engine family's usual ones.\<close>

definition FileABB :: Bitboard where "FileABB = 0x0101010101010101"
definition FileHBB :: Bitboard where "FileHBB = push_bit 7 FileABB"
definition Rank1BB :: Bitboard where "Rank1BB = 0xFF"
definition Rank2BB :: Bitboard where "Rank2BB = push_bit 8 Rank1BB"
definition Rank3BB :: Bitboard where "Rank3BB = push_bit 16 Rank1BB"
definition Rank6BB :: Bitboard where "Rank6BB = push_bit 40 Rank1BB"
definition Rank7BB :: Bitboard where "Rank7BB = push_bit 48 Rank1BB"
definition DarkSquares :: Bitboard where "DarkSquares = 0xAA55AA55AA55AA55"

definition SquareBB :: "Square \<Rightarrow> Bitboard" where
  "SquareBB s = push_bit s 1"

definition FileBB :: "File \<Rightarrow> Bitboard" where
  "FileBB f = push_bit f FileABB"

definition RankBB :: "Rank \<Rightarrow> Bitboard" where
  "RankBB r = push_bit (8 * r) Rank1BB"

definition file_bb :: "Square \<Rightarrow> Bitboard" where
  "file_bb s = FileBB (file_of s)"

definition rank_bb :: "Square \<Rightarrow> Bitboard" where
  "rank_bb s = RankBB (rank_of s)"

definition adjacent_files_bb :: "File \<Rightarrow> Bitboard" where
  "adjacent_files_bb f =
     (if f > FILE_A then FileBB (f - 1) else 0) OR (if f < FILE_H then FileBB (f + 1) else 0)"

text \<open>\<open>ForwardRanksBB c r\<close>: the ranks in front of rank \<open>r\<close> from the point of view of
  colour \<open>c\<close>.\<close>

definition ForwardRanksBB :: "Color \<Rightarrow> Rank \<Rightarrow> Bitboard" where
  "ForwardRanksBB c r = (case c of WHITE \<Rightarrow> NOT (mask (8 * (r + 1))) | BLACK \<Rightarrow> mask (8 * r))"

definition forward_ranks_bb :: "Color \<Rightarrow> Square \<Rightarrow> Bitboard" where
  "forward_ranks_bb c s = ForwardRanksBB c (rank_of s)"

definition forward_file_bb :: "Color \<Rightarrow> Square \<Rightarrow> Bitboard" where
  "forward_file_bb c s = ForwardRanksBB c (rank_of s) AND FileBB (file_of s)"

definition pawn_attack_span :: "Color \<Rightarrow> Square \<Rightarrow> Bitboard" where
  "pawn_attack_span c s = ForwardRanksBB c (rank_of s) AND adjacent_files_bb (file_of s)"

definition passed_pawn_mask :: "Color \<Rightarrow> Square \<Rightarrow> Bitboard" where
  "passed_pawn_mask c s = forward_file_bb c s OR pawn_attack_span c s"

definition shift :: "Direction \<Rightarrow> Bitboard \<Rightarrow> Bitboard" where
  "shift D b =
     (if D = NORTH then push_bit 8 b
      else if D = SOUTH then drop_bit 8 b
      else if D = EAST then push_bit 1 (b AND NOT FileHBB)
      else if D = WEST then drop_bit 1 (b AND NOT FileABB)
      else if D = NORTH_EAST then push_bit 9 (b AND NOT FileHBB)
      else if D = NORTH_WEST then push_bit 7 (b AND NOT FileABB)
      else if D = SOUTH_EAST then drop_bit 7 (b AND NOT FileHBB)
      else if D = SOUTH_WEST then drop_bit 9 (b AND NOT FileABB)
      else 0)"

definition pawn_attacks_bb :: "Color \<Rightarrow> Bitboard \<Rightarrow> Bitboard" where
  "pawn_attacks_bb c b =
     (case c of WHITE \<Rightarrow> shift NORTH_WEST b OR shift NORTH_EAST b
              | BLACK \<Rightarrow> shift SOUTH_WEST b OR shift SOUTH_EAST b)"

definition PawnAttacks :: "Color \<Rightarrow> Square \<Rightarrow> Bitboard" where
  "PawnAttacks c s = pawn_attacks_bb c (SquareBB s)"

definition popcount :: "Bitboard \<Rightarrow> int" where
  "popcount b = int (length (filter (bit b) [0 ..< 64]))"

definition more_than_one :: "Bitboard \<Rightarrow> bool" where
  "more_than_one b = (b AND (b - 1) \<noteq> 0)"

text \<open>Least and most significant set bit; every call in \<^verbatim>\<open>pawns.cpp\<close> is guarded by
  a test that the bitboard is not empty.\<close>

definition lsb :: "Bitboard \<Rightarrow> Square" where
  "lsb b = (case find (bit b) [0 ..< 64] of Some s \<Rightarrow> s | None \<Rightarrow> 64)"

definition msb :: "Bitboard \<Rightarrow> Square" where
  "msb b = (case find (bit b) (rev [0 ..< 64]) of Some s \<Rightarrow> s | None \<Rightarrow> 64)"

definition pop_lsb :: "Bitboard \<Rightarrow> Square \<times> Bitboard" where
  "pop_lsb b = (lsb b, b AND (b - 1))"

definition frontmost_sq :: "Color \<Rightarrow> Bitboard \<Rightarrow> Square" where
  "frontmost_sq c b = (case c of WHITE \<Rightarrow> msb b | BLACK \<Rightarrow> lsb b)"

definition backmost_sq :: "Color \<Rightarrow> Bitboard \<Rightarrow> Square" where
  "backmost_sq c b = (case c of WHITE \<Rightarrow> lsb b | BLACK \<Rightarrow> msb b)"

section \<open>Positions and cache entries\<close>

text \<open>Modelled from the spec: the position interface of section 6, as far as
  \<^verbatim>\<open>pawns.cpp\<close> reads it: piece at a square, the bitboard of all pawns, the bitboard
  of each colour's pieces, each colour's sequence of pawn squares (without its
  terminator \<^verbatim>\<open>SQ_NONE\<close>) and the pawn hash key.\<close>

record Position =
  board :: "Square \<Rightarrow> Piece"
  pawnsBB :: Bitboard
  colorBB :: "Color \<Rightarrow> Bitboard"
  pawnList :: "Color \<Rightarrow> Square list"
  pawnKey :: Key

definition piece_on :: "Position \<Rightarrow> Square \<Rightarrow> Piece" where
  "piece_on pos s = board pos s"

definition pieces_cp :: "Position \<Rightarrow> Color \<Rightarrow> Bitboard" where
  "pieces_cp pos c = colorBB pos c AND pawnsBB pos"

definition count_pawns :: "Position \<Rightarrow> Color \<Rightarrow> int" where
  "count_pawns pos c = int (length (pawnList pos c))"

text \<open>\<^verbatim>\<open>Pawns::Entry\<close>; the per-colour arrays are functions of the colour.\<close>

record Entry =
  key :: Key
  scores :: "Color \<Rightarrow> Score"
  passedPawns :: "Color \<Rightarrow> Bitboard"
  pawnAttacks :: "Color \<Rightarrow> Bitboard"
  pawnAttacksSpan :: "Color \<Rightarrow> Bitboard"
  kingSquares :: "Color \<Rightarrow> Square"
  kingSafety :: "Color \<Rightarrow> Score"
  weakUnopposed :: "Color \<Rightarrow> int"
  castlingRights :: "Color \<Rightarrow> int"
  semiopenFiles :: "Color \<Rightarrow> int"
  pawnsOnSquares :: "Color \<Rightarrow> Color \<Rightarrow> int"
  asymmetry :: int
  openFiles :: int

definition SQ_NONE :: Square where "SQ_NONE = 64"

text \<open>What stops an evaluation: a failed \<^verbatim>\<open>assert\<close> (in a build that keeps
  assertions), or an index outside a table or the board (undefined behaviour in C++).\<close>

datatype error = AssertionFailed | OutOfBounds


section \<open>The structural classifier\<close>

text \<open>The local variables of \<^verbatim>\<open>evaluate<Us>\<close>, as functions of the colour, the
  position and the pawn's square.\<close>

definition Up :: "Color \<Rightarrow> Direction" where
  "Up Us = (if Us = WHITE then NORTH else SOUTH)"

definition ourPawns :: "Color \<Rightarrow> Position \<Rightarrow> Bitboard" where
  "ourPawns Us pos = pieces_cp pos Us"

definition theirPawns :: "Color \<Rightarrow> Position \<Rightarrow> Bitboard" where
  "theirPawns Us pos = pieces_cp pos (opp Us)"

definition opposed :: "Color \<Rightarrow> Position \<Rightarrow> Square \<Rightarrow> bool" where
  "opposed Us pos s = (theirPawns Us pos AND forward_file_bb Us s \<noteq> 0)"

definition stoppers :: "Color \<Rightarrow> Position \<Rightarrow> Square \<Rightarrow> Bitboard" where
  "stoppers Us pos s = theirPawns Us pos AND passed_pawn_mask Us s"

definition lever :: "Color \<Rightarrow> Position \<Rightarrow> Square \<Rightarrow> Bitboard" where
  "lever Us pos s = theirPawns Us pos AND PawnAttacks Us s"

definition leverPush :: "Color \<Rightarrow> Position \<Rightarrow> Square \<Rightarrow> Bitboard" where
  "leverPush Us pos s = theirPawns Us pos AND PawnAttacks Us (sq_add s (Up Us))"

definition doubled :: "Color \<Rightarrow> Position \<Rightarrow> Square \<Rightarrow> Bitboard" where
  "doubled Us pos s = ourPawns Us pos AND SquareBB (sq_add s (- Up Us))"

definition neighbours :: "Color \<Rightarrow> Position \<Rightarrow> Square \<Rightarrow> Bitboard" where
  "neighbours Us pos s = ourPawns Us pos AND adjacent_files_bb (file_of s)"

definition phalanx :: "Color \<Rightarrow> Position \<Rightarrow> Square \<Rightarrow> Bitboard" where
  "phalanx Us pos s = neighbours Us pos s AND rank_bb s"

definition supported :: "Color \<Rightarrow> Position \<Rightarrow> Square \<Rightarrow> Bitboard" where
  "supported Us pos s = neighbours Us pos s AND rank_bb (sq_add s (- Up Us))"

definition backward :: "Color \<Rightarrow> Position \<Rightarrow> Square \<Rightarrow> bool" where
  "backward Us pos s =
     (ourPawns Us pos AND pawn_attack_span (opp Us) (sq_add s (Up Us)) = 0
      \<and> stoppers Us pos s AND (leverPush Us pos s OR SquareBB (sq_add s (Up Us))) \<noteq> 0)"

lemma pop_lsb_decreases: "b \<noteq> 0 \<Longrightarrow> unat ((b :: Bitboard) AND (b - 1)) < unat b"
proof -
  assume nz: "b \<noteq> 0"
  have "b AND (b - 1) \<le> b - 1"
    by (rule word_and_le1)
  then have "unat (b AND (b - 1)) \<le> unat (b - 1)"
    by (simp add: word_le_nat_alt)
  also have "unat (b - 1) < unat b"
    using nz by (rule measure_unat)
  finally show ?thesis .
qed

text \<open>The loop \<^verbatim>\<open>while (b) if (!more_than_one(theirPawns & PawnAttacks[Us][pop_lsb(&b)]))
  e->passedPawns[Us] |= s;\<close> on the bitboard of colour \<open>Us\<close>'s passed pawns.\<close>

function passed_push_loop :: "Color \<Rightarrow> Bitboard \<Rightarrow> Square \<Rightarrow> Bitboard \<Rightarrow> Bitboard \<Rightarrow> Bitboard" where
  "passed_push_loop Us theirs s b passedUs =
     (if b = 0 then passedUs
      else passed_push_loop Us theirs s (snd (pop_lsb b))
             (if \<not> more_than_one (theirs AND PawnAttacks Us (fst (pop_lsb b)))
              then passedUs OR SquareBB s else passedUs))"
  by pat_completeness auto
termination
  by (relation "measure (\<lambda>(Us, theirs, s, b, passedUs). unat b)")
     (auto simp: pop_lsb_def pop_lsb_decreases)

declare passed_push_loop.simps [simp del]

text \<open>The first passed-pawn condition: the only stoppers are levers and lever pushes, no
  own pawn stands ahead on the file, and the pawn is not attacked more often than
  defended.\<close>

definition candidate_passed :: "Color \<Rightarrow> Position \<Rightarrow> Square \<Rightarrow> bool" where
  "candidate_passed Us pos s =
     (stoppers Us pos s XOR lever Us pos s XOR leverPush Us pos s = 0
      \<and> ourPawns Us pos AND forward_file_bb Us s = 0
      \<and> popcount (supported Us pos s) \<ge> popcount (lever Us pos s) - 1
      \<and> popcount (phalanx Us pos s) \<ge> popcount (leverPush Us pos s))"

text \<open>The passed-pawn flag: the \<^verbatim>\<open>if\<close> and \<^verbatim>\<open>else if\<close> on \<^verbatim>\<open>e->passedPawns[Us]\<close>.\<close>

definition flag_passed :: "Color \<Rightarrow> Position \<Rightarrow> Square \<Rightarrow> Entry \<Rightarrow> Entry" where
  "flag_passed Us pos s e =
     (if candidate_passed Us pos s
      then e\<lparr>passedPawns := (passedPawns e)(Us := passedPawns e Us OR SquareBB s)\<rparr>
      else if stoppers Us pos s = SquareBB (sq_add s (Up Us)) \<and> relative_rank Us s \<ge> RANK_5
      then e\<lparr>passedPawns := (passedPawns e)
                 (Us := passed_push_loop Us (theirPawns Us pos) s
                          (shift (Up Us) (supported Us pos s) AND NOT (theirPawns Us pos))
                          (passedPawns e Us))\<rparr>
      else e)"

text \<open>``Score this pawn'': connected, isolated (with the rank-3 term), backward, doubled.\<close>

definition bump_weakUnopposed :: "Color \<Rightarrow> bool \<Rightarrow> Entry \<Rightarrow> Entry" where
  "bump_weakUnopposed Us opp_flag e =
     e\<lparr>weakUnopposed := (weakUnopposed e)(Us := weakUnopposed e Us + of_bool (\<not> opp_flag))\<rparr>"

definition score_structure ::
  "ConnectedTable \<Rightarrow> Color \<Rightarrow> Position \<Rightarrow> Square \<Rightarrow> Entry \<times> Score \<Rightarrow> Entry \<times> Score" where
  "score_structure Conn Us pos s st =
     (let e = fst st; score = snd st;
          (e, score) =
            (if supported Us pos s OR phalanx Us pos s \<noteq> 0
             then (e, score_add score
                        (Conn (of_bool (opposed Us pos s), of_bool (phalanx Us pos s \<noteq> 0),
                               nat (popcount (supported Us pos s)), relative_rank Us s)))
             else if neighbours Us pos s = 0
             then (bump_weakUnopposed Us (opposed Us pos s) e,
                   (let score = score_sub score Isolated
                    in if relative_rank Us s = RANK_3
                       then score_add score PawnScoresIsolatedRank3 else score))
             else if backward Us pos s
             then (bump_weakUnopposed Us (opposed Us pos s) e, score_sub score Backward)
             else (e, score))
      in (e, if doubled Us pos s \<noteq> 0 \<and> supported Us pos s = 0
             then score_sub score Doubled else score))"

text \<open>The protected-passed-pawn block.  For Black a pawn on \<^verbatim>\<open>RANK_7\<close> or beyond
  reaches \<^verbatim>\<open>assert(false)\<close>; without assertions \<open>rpp\<close> stays \<open>rp1\<close> there.\<close>

definition passed1 :: "Color \<Rightarrow> Position \<Rightarrow> Square \<Rightarrow> bool" where
  "passed1 Us pos s = (passed_pawn_mask Us s AND ourPawns Us pos \<noteq> 0)"

definition protected_passed :: "bool \<Rightarrow> Color \<Rightarrow> Position \<Rightarrow> Square \<Rightarrow> Score \<Rightarrow> error + Score" where
  "protected_passed asserts Us pos s score =
     (let f = file_of s;
          rp1 = rank_of s;
          fp0 = (if f > FILE_A then f - 1 else f);
          fp2 = (if f < FILE_H then f + 1 else f)
      in if Us \<noteq> WHITE \<and> \<not> rp1 < RANK_7 \<and> asserts then Inl AssertionFailed
         else
           let rpp = (if Us = WHITE then (if rp1 > RANK_2 then rp1 - 1 else rp1)
                      else (if rp1 < RANK_7 then rp1 + 1 else rp1))
           in if rpp \<noteq> rp1
              then
                let prot = (if fp0 \<noteq> f
                            then make_piece Us PAWN = piece_on pos (make_square fp0 rpp)
                            else False);
                    prot = (if fp2 \<noteq> f
                            then prot \<or> make_piece Us PAWN = piece_on pos (make_square fp2 rpp)
                            else prot)
                in Inr (if passed1 Us pos s \<and> prot then score_add score ProtectedPassedPawn
                        else score)
              else Inr score)"

text \<open>The body of the first loop, up to the doubled-pawn penalty: the semi-open files,
  the attack span, the passed-pawn flag and the structure score.\<close>

definition flag_and_score ::
  "ConnectedTable \<Rightarrow> Color \<Rightarrow> Position \<Rightarrow> Square \<Rightarrow> Entry \<times> Score \<Rightarrow> Entry \<times> Score" where
  "flag_and_score Conn Us pos s st =
     (let e = fst st;
          e = e\<lparr>semiopenFiles :=
                  (semiopenFiles e)(Us := semiopenFiles e Us AND NOT (push_bit (file_of s) 1))\<rparr>;
          e = e\<lparr>pawnAttacksSpan :=
                  (pawnAttacksSpan e)(Us := pawnAttacksSpan e Us OR pawn_attack_span Us s)\<rparr>;
          e = flag_passed Us pos s e
      in score_structure Conn Us pos s (e, snd st))"

text \<open>The whole body.  The tables \<^verbatim>\<open>SquareBB\<close>, \<^verbatim>\<open>RankBB\<close>, \<^verbatim>\<open>PawnAttacks\<close>
  and \<^verbatim>\<open>PawnAttackSpan\<close> are read at \<^verbatim>\<open>s + Up\<close> and \<^verbatim>\<open>s - Up\<close>, which must be
  squares of the board.\<close>

definition score_pawn ::
  "bool \<Rightarrow> ConnectedTable \<Rightarrow> Color \<Rightarrow> Position \<Rightarrow> Square \<Rightarrow> Entry \<times> Score \<Rightarrow> error + Entry \<times> Score" where
  "score_pawn asserts Conn Us pos s st =
     (if \<not> s < SQUARE_NB then Inl OutOfBounds
      else if asserts \<and> piece_on pos s \<noteq> make_piece Us PAWN then Inl AssertionFailed
      else if \<not> (0 \<le> int s + Up Us \<and> int s + Up Us < 64 \<and> 0 \<le> int s - Up Us \<and> int s - Up Us < 64)
      then Inl OutOfBounds
      else
        (case protected_passed asserts Us pos s (snd (flag_and_score Conn Us pos s st)) of
           Inl err \<Rightarrow> Inl err
         | Inr score \<Rightarrow> Inr (fst (flag_and_score Conn Us pos s st), score)))"

text \<open>The second loop: connected passed pawns.\<close>

fun partner_scan :: "Color \<Rightarrow> Position \<Rightarrow> Bitboard \<Rightarrow> File \<Rightarrow> Rank list \<Rightarrow> bool \<Rightarrow> bool" where
  "partner_scan Us pos passedUs f0 [] passed0 = passed0"
| "partner_scan Us pos passedUs f0 (r0 # rs) passed0 =
     (if piece_on pos (make_square f0 r0) = make_piece Us PAWN
      then (if passedUs AND SquareBB (make_square f0 r0) \<noteq> 0 then True
            else partner_scan Us pos passedUs f0 rs False)
      else partner_scan Us pos passedUs f0 rs passed0)"

text \<open>\<^verbatim>\<open>while (pos.piece_on(UsKingSquare) != UsKing) { UsKingSquare = Square(UsKingSquare + 1);
  assert(UsKingSquare != SQUARE_NB); }\<close>: past the last square the assertion fails, or,
  without assertions, the board is read outside its 64 entries.\<close>

function king_scan :: "bool \<Rightarrow> Position \<Rightarrow> Piece \<Rightarrow> Square \<Rightarrow> error + Square" where
  "king_scan asserts pos UsKing sq =
     (if \<not> sq < SQUARE_NB then Inl OutOfBounds
      else if piece_on pos sq \<noteq> UsKing
      then (if asserts \<and> sq + 1 = SQUARE_NB then Inl AssertionFailed
            else king_scan asserts pos UsKing (sq + 1))
      else Inr sq)"
  by pat_completeness auto
termination
  by (relation "measure (\<lambda>(asserts, pos, UsKing, sq). SQUARE_NB - sq)") auto

declare king_scan.simps [simp del]

definition connected_passed :: "bool \<Rightarrow> Color \<Rightarrow> Position \<Rightarrow> Entry \<Rightarrow> Square \<Rightarrow> Score \<Rightarrow> error + Score" where
  "connected_passed asserts Us pos e s score =
     (if \<not> s < SQUARE_NB then Inl OutOfBounds
      else if asserts \<and> piece_on pos s \<noteq> make_piece Us PAWN then Inl AssertionFailed
      else
        let f = file_of s;
            f0 = (if f > FILE_A then f - 1 else f);
            f2 = (if f < FILE_H then f + 1 else f)
        in if f0 \<noteq> f \<and> passed1 Us pos s
           then
             let passed0 = partner_scan Us pos (passedPawns e Us) f0 [RANK_2 ..< Suc RANK_7] False
             in if passed0 \<and> passed1 Us pos s
                then
                  let score = score_add score PawnScoresConnectedPassed
                  in case king_scan asserts pos (make_piece Us KING) SQ_A1 of
                       Inl err \<Rightarrow> Inl err
                     | Inr UsKingSquare \<Rightarrow>
                         let UsKingFile = file_of UsKingSquare;
                             connected_passed_defend_king = (UsKingFile \<ge> f0 \<and> UsKingFile \<le> f2)
                         in Inr (if connected_passed_defend_king
                                 then score_add score KingSafetyCompensationPawnScoresConnectedPassed
                                 else score)
                else Inr score
           else Inr score)"

text \<open>A loop over the pawn squares that stops at the first error.\<close>

fun pawn_loop :: "(Square \<Rightarrow> 'a \<Rightarrow> error + 'a) \<Rightarrow> Square list \<Rightarrow> 'a \<Rightarrow> error + 'a" where
  "pawn_loop body [] st = Inr st"
| "pawn_loop body (s # pl) st =
     (case body s st of Inl err \<Rightarrow> Inl err | Inr st' \<Rightarrow> pawn_loop body pl st')"

definition evaluate_init :: "Color \<Rightarrow> Position \<Rightarrow> Entry \<Rightarrow> Entry" where
  "evaluate_init Us pos e =
     (let dark = popcount (ourPawns Us pos AND DarkSquares)
      in e\<lparr>passedPawns := (passedPawns e)(Us := 0),
            pawnAttacksSpan := (pawnAttacksSpan e)(Us := 0),
            weakUnopposed := (weakUnopposed e)(Us := 0),
            semiopenFiles := (semiopenFiles e)(Us := 0xFF),
            kingSquares := (kingSquares e)(Us := SQ_NONE),
            pawnAttacks := (pawnAttacks e)(Us := pawn_attacks_bb Us (ourPawns Us pos)),
            pawnsOnSquares := (pawnsOnSquares e)
               (Us := (pawnsOnSquares e Us)(BLACK := dark, WHITE := count_pawns pos Us - dark))\<rparr>)"

text \<open>\<^verbatim>\<open>evaluate<Us>(pos, e)\<close>: the entry as the call leaves it, and the score returned.
  \<open>asserts\<close> says whether the build keeps \<^verbatim>\<open>assert\<close>.\<close>

definition evaluate ::
  "bool \<Rightarrow> ConnectedTable \<Rightarrow> Color \<Rightarrow> Position \<Rightarrow> Entry \<Rightarrow> error + Entry \<times> Score" where
  "evaluate asserts Conn Us pos e =
     (case pawn_loop (score_pawn asserts Conn Us pos) (pawnList pos Us)
             (evaluate_init Us pos e, SCORE_ZERO) of
        Inl err \<Rightarrow> Inl err
      | Inr st \<Rightarrow>
          (case pawn_loop (connected_passed asserts Us pos (fst st)) (pawnList pos Us) (snd st) of
             Inl err \<Rightarrow> Inl err
           | Inr score \<Rightarrow> Inr (fst st, score)))"


section \<open>The pawn hash table\<close>

text \<open>Modelled from the spec: the table slot is selected by the low bits of the key
  (the table class itself is not in the sources; the engine family keeps 16384 entries).\<close>

type_synonym Table = "nat \<Rightarrow> Entry"

definition slot :: "Key \<Rightarrow> nat" where
  "slot k = unat (k AND 16383)"

text \<open>\<^verbatim>\<open>Pawns::probe\<close> returns a pointer into the table: the model returns the table as
  the call leaves it, and the entry pointed to.\<close>

definition probe :: "bool \<Rightarrow> ConnectedTable \<Rightarrow> Position \<Rightarrow> Table \<Rightarrow> error + Table \<times> Entry" where
  "probe asserts Conn pos table =
     (let k = pawnKey pos;
          e = table (slot k)
      in if key e = k then Inr (table, e)
         else
           (case evaluate asserts Conn WHITE pos (e\<lparr>key := k\<rparr>) of
              Inl err \<Rightarrow> Inl err
            | Inr rw \<Rightarrow>
                (case evaluate asserts Conn BLACK pos
                        ((fst rw)\<lparr>scores := (scores (fst rw))(WHITE := snd rw)\<rparr>) of
                   Inl err \<Rightarrow> Inl err
                 | Inr rb \<Rightarrow>
                     (let e = (fst rb)\<lparr>scores := (scores (fst rb))(BLACK := snd rb)\<rparr>;
                          e = e\<lparr>openFiles :=
                                popcount (word_of_int (semiopenFiles e WHITE AND semiopenFiles e BLACK))\<rparr>;
                          e = e\<lparr>asymmetry :=
                                popcount ((passedPawns e WHITE OR passedPawns e BLACK)
                                          OR word_of_int (semiopenFiles e WHITE XOR semiopenFiles e BLACK))\<rparr>
                      in Inr (fun_upd table (slot k) e, e)))))"

section \<open>King shelter\<close>

definition ShelterStrength :: "Val list list" where
  "ShelterStrength =
     [[7, 76, 84, 38, 7, 30, - 19, 0],
      [- 3, 93, 52, - 17, 12, - 22, - 35, 0],
      [- 6, 83, 25, - 24, 15, 22, - 39, 0],
      [11, 83, 19, 8, 18, - 21, - 30, 0]]"

definition UnBlocked :: nat where "UnBlocked = 0"
definition BlockedByPawn :: nat where "BlockedByPawn = 1"

definition StormDanger :: "Val list list list" where
  "StormDanger =
     [[[25, 79, 107, 51, 27, 0, 0, 0],
       [15, 45, 131, 8, 25, 0, 0, 0],
       [0, 42, 118, 56, 27, 0, 0, 0],
       [3, 54, 110, 55, 26, 0, 0, 0]],
      [[0, 0, 37, 5, - 48, 0, 0, 0],
       [0, 0, 68, - 12, 13, 0, 0, 0],
       [0, 0, 111, - 25, - 3, 0, 0, 0],
       [0, 0, 108, 14, 21, 0, 0, 0]]]"

text \<open>The body of the loop over the three files around the king.\<close>

definition shelter_file :: "Color \<Rightarrow> Bitboard \<Rightarrow> Bitboard \<Rightarrow> File \<Rightarrow> Val \<Rightarrow> Val" where
  "shelter_file Us ours theirs f safety =
     (let b = ours AND FileBB f;
          ourRank = (if b \<noteq> 0 then relative_rank Us (backmost_sq Us b) else 0);
          b = theirs AND FileBB f;
          theirRank = (if b \<noteq> 0 then relative_rank Us (frontmost_sq (opp Us) b) else 0);
          d = min f (FILE_H - f);
          safety = safety + ShelterStrength ! d ! ourRank
      in if ourRank \<noteq> 0 \<or> theirRank \<noteq> 0
         then safety - StormDanger
                 ! (if ourRank \<noteq> 0 \<and> int ourRank = int theirRank - 1 then BlockedByPawn else UnBlocked)
                 ! d ! theirRank
         else safety)"

definition evaluate_shelter :: "Color \<Rightarrow> Position \<Rightarrow> Square \<Rightarrow> error + Val" where
  "evaluate_shelter Us pos ksq =
     (if \<not> ksq < SQUARE_NB \<or> \<not> (0 \<le> int ksq + Up Us \<and> int ksq + Up Us < 64) then Inl OutOfBounds
      else
        let Them = opp Us;
            BlockRanks = (if Us = WHITE then Rank2BB OR Rank3BB else Rank7BB OR Rank6BB);
            b = pawnsBB pos AND (forward_ranks_bb Us ksq OR rank_bb ksq);
            ours = b AND colorBB pos Us;
            theirs = b AND colorBB pos Them;
            safety = (if ours AND file_bb ksq \<noteq> 0 then 5 else - 5);
            safety = (if (theirs AND (FileABB OR FileHBB) AND BlockRanks)
                          AND SquareBB (sq_add ksq (Up Us)) \<noteq> 0
                      then safety + 374 else safety);
            center = max FILE_B (min FILE_G (file_of ksq))
        in Inr (fold (shelter_file Us ours theirs) [center - 1 ..< center + 2] safety))"

section \<open>Building positions\<close>

text \<open>Modelled from the spec: the position's own bookkeeping (\<^verbatim>\<open>position.h\<close> is not
  in the sources): an empty board, putting a piece on a square and taking one off.\<close>

definition empty_position :: "Key \<Rightarrow> Position" where
  "empty_position k =
     \<lparr>board = (\<lambda>_. NO_PIECE), pawnsBB = 0, colorBB = (\<lambda>_. 0), pawnList = (\<lambda>_. []), pawnKey = k\<rparr>"

fun put_piece :: "Piece \<Rightarrow> Square \<Rightarrow> Position \<Rightarrow> Position" where
  "put_piece NO_PIECE s pos = pos"
| "put_piece (Pc c pt) s pos =
     pos\<lparr>board := (board pos)(s := Pc c pt),
         pawnsBB := (if pt = PAWN then pawnsBB pos OR SquareBB s else pawnsBB pos),
         colorBB := (colorBB pos)(c := colorBB pos c OR SquareBB s),
         pawnList := (if pt = PAWN then (pawnList pos)(c := pawnList pos c @ [s])
                      else pawnList pos)\<rparr>"

definition remove_piece :: "Square \<Rightarrow> Position \<Rightarrow> Position" where
  "remove_piece s pos =
     (case board pos s of
        NO_PIECE \<Rightarrow> pos
      | Pc c pt \<Rightarrow>
          pos\<lparr>board := (board pos)(s := NO_PIECE),
              pawnsBB := (if pt = PAWN then pawnsBB pos AND NOT (SquareBB s) else pawnsBB pos),
              colorBB := (colorBB pos)(c := colorBB pos c AND NOT (SquareBB s)),
              pawnList := (if pt = PAWN then (pawnList pos)(c := removeAll s (pawnList pos c))
                           else pawnList pos)\<rparr>)"

definition set_up :: "(Piece \<times> Square) list \<Rightarrow> Key \<Rightarrow> Position" where
  "set_up pcs k = fold (\<lambda>(pc, s). put_piece pc s) pcs (empty_position k)"

text \<open>An entry of a fresh table: all zero.\<close>

definition Entry0 :: Entry where
  "Entry0 =
     \<lparr>key = 0, scores = (\<lambda>_. SCORE_ZERO), passedPawns = (\<lambda>_. 0), pawnAttacks = (\<lambda>_. 0),
      pawnAttacksSpan = (\<lambda>_. 0), kingSquares = (\<lambda>_. 0), kingSafety = (\<lambda>_. SCORE_ZERO),
      weakUnopposed = (\<lambda>_. 0), castlingRights = (\<lambda>_. 0), semiopenFiles = (\<lambda>_. 0),
      pawnsOnSquares = (\<lambda>_ _. 0), asymmetry = 0, openFiles = 0\<rparr>"

section \<open>Structural validity\<close>

text \<open>The assumptions of the specification's section 7 for the colour evaluated: every
  square of the colour's pawn sequence is a square of the board holding a pawn of that
  colour (a pawn never stands on its first or last rank), and a king of the colour is
  on the board.\<close>

definition king_present :: "Color \<Rightarrow> Position \<Rightarrow> bool" where
  "king_present Us pos = (\<exists>k \<in> set [0 ..< SQUARE_NB]. piece_on pos k = make_piece Us KING)"

definition valid_for :: "Color \<Rightarrow> Position \<Rightarrow> bool" where
  "valid_for Us pos =
     ((\<forall>s \<in> set (pawnList pos Us).
          s < SQUARE_NB \<and> piece_on pos s = make_piece Us PAWN
          \<and> RANK_2 \<le> rank_of s \<and> rank_of s \<le> RANK_7)
      \<and> king_present Us pos)"

section \<open>Some positions\<close>

text \<open>The standard starting position (pawns and kings), and a position in which White
  has no pawn.\<close>

definition start_pos :: Position where
  "start_pos =
     set_up (map (\<lambda>f. (Pc WHITE PAWN, make_square f RANK_2)) [0 ..< 8]
             @ map (\<lambda>f. (Pc BLACK PAWN, make_square f RANK_7)) [0 ..< 8]
             @ [(Pc WHITE KING, 4), (Pc BLACK KING, 60)]) 1"

definition lone_pawn_pos :: Position where
  "lone_pawn_pos = set_up [(Pc WHITE KING, 4), (Pc BLACK KING, 60), (Pc BLACK PAWN, 52)] 2"

section \<open>Mirroring a position\<close>

text \<open>The vertical flip of a square (\<^verbatim>\<open>s ^ 56\<close> on the board) and of a bitboard.\<close>

definition flip_sq :: "Square \<Rightarrow> Square" where
  "flip_sq s = make_square (file_of s) (7 - rank_of s)"

definition flip_bb :: "Bitboard \<Rightarrow> Bitboard" where
  "flip_bb b = horner_sum of_bool 2 (map (\<lambda>n. bit b (flip_sq n)) [0 ..< 64])"

fun flip_piece :: "Piece \<Rightarrow> Piece" where
  "flip_piece NO_PIECE = NO_PIECE"
| "flip_piece (Pc c pt) = Pc (opp c) pt"

text \<open>The mirrored position: colours swapped, board flipped vertically; \<open>k\<close> is its pawn
  key.\<close>

definition mirror :: "Position \<Rightarrow> Key \<Rightarrow> Position" where
  "mirror pos k =
     \<lparr>board = (\<lambda>s. flip_piece (board pos (flip_sq s))),
      pawnsBB = flip_bb (pawnsBB pos),
      colorBB = (\<lambda>c. flip_bb (colorBB pos (opp c))),
      pawnList = (\<lambda>c. map flip_sq (pawnList pos (opp c))),
      pawnKey = k\<rparr>"

text \<open>Entry \<open>e2\<close> holds for the other colour what \<open>e1\<close> holds for colour \<open>Us\<close>, under the
  flip: the bitboards flipped, the file mask and the counter equal, the counts of pawns
  on dark and light squares exchanged (the flip changes the colour of every square).\<close>

definition mirrored :: "Color \<Rightarrow> Entry \<Rightarrow> Entry \<Rightarrow> bool" where
  "mirrored Us e1 e2 =
     (passedPawns e2 (opp Us) = flip_bb (passedPawns e1 Us)
      \<and> pawnAttacks e2 (opp Us) = flip_bb (pawnAttacks e1 Us)
      \<and> pawnAttacksSpan e2 (opp Us) = flip_bb (pawnAttacksSpan e1 Us)
      \<and> semiopenFiles e2 (opp Us) = semiopenFiles e1 Us
      \<and> weakUnopposed e2 (opp Us) = weakUnopposed e1 Us
      \<and> pawnsOnSquares e2 (opp Us) WHITE = pawnsOnSquares e1 Us BLACK
      \<and> pawnsOnSquares e2 (opp Us) BLACK = pawnsOnSquares e1 Us WHITE)"

section \<open>Well-formed positions\<close>

text \<open>Exactly one king of the colour stands on the board.\<close>

definition one_king :: "Color \<Rightarrow> Position \<Rightarrow> bool" where
  "one_king Us pos =
     (length (filter (\<lambda>k. piece_on pos k = make_piece Us KING) [0 ..< SQUARE_NB]) = 1)"

text \<open>A well-formed position: valid for both colours, one king each, no square twice in
  a pawn sequence, and pawn bitboards, pawn sequences and board agree.\<close>

definition pos_ok :: "Position \<Rightarrow> bool" where
  "pos_ok pos =
     (\<forall>c \<in> set [WHITE, BLACK].
        valid_for c pos \<and> one_king c pos \<and> distinct (pawnList pos c)
        \<and> (\<forall>s \<in> set [0 ..< SQUARE_NB].
              (bit (pieces_cp pos c) s \<longleftrightarrow> piece_on pos s = make_piece c PAWN)
              \<and> (piece_on pos s = make_piece c PAWN \<longrightarrow> s \<in> set (pawnList pos c))))"

section \<open>The second passed-pawn condition\<close>

text \<open>What the \<^verbatim>\<open>else if\<close> branch and its loop come to: the only stopper is the enemy pawn
  on the square directly ahead, the pawn stands on its fifth rank or beyond, and some
  supporting pawn can step beside it: the square ahead of that supporter holds no enemy
  pawn and is attacked by at most one enemy pawn.\<close>

definition blocked_passed :: "Color \<Rightarrow> Position \<Rightarrow> Square \<Rightarrow> bool" where
  "blocked_passed Us pos s =
     (stoppers Us pos s = SquareBB (sq_add s (Up Us)) \<and> relative_rank Us s \<ge> RANK_5
      \<and> (\<exists>sq. bit (shift (Up Us) (supported Us pos s) AND NOT (theirPawns Us pos)) sq
                \<and> \<not> more_than_one (theirPawns Us pos AND PawnAttacks Us sq)))"
section \<open>The connected-pawn table after \<open>init\<close>\<close>

lemma Connected_cells:
  "\<forall>opposed \<in> set [0 ..< 2]. \<forall>phalanx \<in> set [0 ..< 2]. \<forall>support \<in> set [0 ..< 3].
     \<forall>r \<in> set [RANK_2 ..< RANK_8].
       Connected (opposed, phalanx, support, r) =
         init_cell opposed phalanx support r Connected0 (opposed, phalanx, support, r)"
  by code_simp

text \<open>Claim C4, as the code has it: after \<open>init\<close>, for opposed and phalanx in {0,1},
  support in {0,1,2} and every rank index \<open>r\<close> from \<open>RANK_2\<close> to \<open>RANK_7\<close> (the
  zero-based rank, board rank minus one), the cell is
  \<open>make_score v (v * (r - 2) / 4)\<close> with truncating division, where
  \<open>v = 17 * support + ((Seed[r] + (phalanx ? (Seed[r+1] - Seed[r]) / 2 : 0)) >> opposed)\<close>:
  the shift applies to the seed term only, not to \<open>17 * support\<close>.\<close>

theorem init_connected_table:
  fixes opposed phalanx support r :: nat
  assumes "opposed < 2" and "phalanx < 2" and "support < 3" and "RANK_2 \<le> r" and "r < RANK_8"
  shows "init Connected0 (opposed, phalanx, support, r) =
           make_score
             (17 * int support
              + drop_bit opposed
                  (Seed ! r + (if phalanx \<noteq> 0 then (Seed ! (r + 1) - Seed ! r) sdiv 2 else 0)))
             ((17 * int support
               + drop_bit opposed
                   (Seed ! r + (if phalanx \<noteq> 0 then (Seed ! (r + 1) - Seed ! r) sdiv 2 else 0)))
              * (int r - 2) sdiv 4)"
proof -
  from assms have "opposed \<in> set [0 ..< 2]" "phalanx \<in> set [0 ..< 2]" "support \<in> set [0 ..< 3]"
    "r \<in> set [RANK_2 ..< RANK_8]"
    by simp_all
  with Connected_cells
  have "Connected (opposed, phalanx, support, r) =
          init_cell opposed phalanx support r Connected0 (opposed, phalanx, support, r)"
    by blast
  then show ?thesis
    by (simp add: Connected_def init_cell_def Let_def)
qed

theorem init_connected_table_witness:
  "(1::nat) < 2 \<and> (1::nat) < 2 \<and> (2::nat) < 3 \<and> RANK_2 \<le> 3 \<and> 3 < RANK_8
   \<and> init Connected0 (1, 1, 2, 3) = make_score 54 13"
  using init_connected_table [of 1 1 2 3]
  by (simp add: RANK_2_def RANK_8_def Seed_def signed_divide_int_def)

text \<open>Claim C4 as the specification words it fails: with opposed = 1 and one supporting
  pawn on board rank 2 the code stores (23, -5), the specification's formula gives (15, 0).\<close>

theorem init_connected_table_counterexample:
  "init Connected0 (1, 0, 1, RANK_2) = (23, - 5) \<and> spec_connected 1 0 1 2 = (15, 0)
   \<and> init Connected0 (1, 0, 1, RANK_2) \<noteq> spec_connected 1 0 1 2"
  by code_simp

section \<open>The classifier returns\<close>

lemma pawn_loop_total:
  "(\<And>s st. s \<in> set pl \<Longrightarrow> \<exists>st'. body s st = Inr st') \<Longrightarrow> \<exists>st'. pawn_loop body pl st = Inr st'"
proof (induction pl arbitrary: st)
  case Nil
  then show ?case by simp
next
  case (Cons s pl)
  from Cons.prems [of s st] obtain st1 where "body s st = Inr st1" by auto
  moreover from Cons.IH [of st1] Cons.prems obtain st2 where "pawn_loop body pl st1 = Inr st2"
    by auto
  ultimately show ?case by simp
qed

lemma protected_passed_release:
  "\<exists>score'. protected_passed False Us pos s score = Inr score'"
  by (simp add: protected_passed_def Let_def)

lemma protected_passed_white:
  "\<exists>score'. protected_passed asserts WHITE pos s score = Inr score'"
  by (simp add: protected_passed_def Let_def)

lemma protected_passed_low:
  "rank_of s < RANK_7 \<Longrightarrow> \<exists>score'. protected_passed asserts Us pos s score = Inr score'"
  by (simp add: protected_passed_def Let_def)

lemma protected_passed_assert:
  "RANK_7 \<le> rank_of s \<Longrightarrow> protected_passed True BLACK pos s score = Inl AssertionFailed"
  by (simp add: protected_passed_def Let_def)

lemma rank_bounds:
  "s < SQUARE_NB \<Longrightarrow> RANK_2 \<le> rank_of s \<Longrightarrow> rank_of s \<le> RANK_7 \<Longrightarrow>
     0 \<le> int s + Up Us \<and> int s + Up Us < 64 \<and> 0 \<le> int s - Up Us \<and> int s - Up Us < 64"
  by (auto simp: SQUARE_NB_def RANK_2_def RANK_7_def rank_of_def Up_def NORTH_def SOUTH_def)

lemma score_pawn_cases:
  assumes "s < SQUARE_NB" "piece_on pos s = make_piece Us PAWN" "RANK_2 \<le> rank_of s" "rank_of s \<le> RANK_7"
  shows "score_pawn asserts Conn Us pos s st =
           (case protected_passed asserts Us pos s (snd (flag_and_score Conn Us pos s st)) of
              Inl err \<Rightarrow> Inl err
            | Inr score \<Rightarrow> Inr (fst (flag_and_score Conn Us pos s st), score))"
  using assms rank_bounds [of s Us] by (simp add: score_pawn_def)

lemma score_pawn_total:
  assumes "s < SQUARE_NB" "piece_on pos s = make_piece Us PAWN" "RANK_2 \<le> rank_of s" "rank_of s \<le> RANK_7"
    and "\<not> asserts \<or> Us = WHITE \<or> rank_of s < RANK_7"
  shows "\<exists>st'. score_pawn asserts Conn Us pos s st = Inr st'"
proof -
  let ?sc = "snd (flag_and_score Conn Us pos s st)"
  from assms(5) obtain sc' where "protected_passed asserts Us pos s ?sc = Inr sc'"
    using protected_passed_release [of Us pos s ?sc] protected_passed_white [of asserts pos s ?sc]
      protected_passed_low [of s asserts Us pos ?sc] by (cases asserts) auto
  then show ?thesis
    by (simp add: score_pawn_cases [OF assms(1-4)])
qed

lemma king_scan_finds:
  assumes "sq \<le> k" "k < SQUARE_NB" "piece_on pos k = UsKing"
  shows "\<exists>k'. king_scan asserts pos UsKing sq = Inr k' \<and> sq \<le> k' \<and> k' \<le> k
              \<and> piece_on pos k' = UsKing \<and> (\<forall>j. sq \<le> j \<and> j < k' \<longrightarrow> piece_on pos j \<noteq> UsKing)"
  using assms
proof (induction asserts pos UsKing sq rule: king_scan.induct)
  case (1 asserts pos UsKing sq)
  show ?case
  proof (cases "piece_on pos sq = UsKing")
    case True
    with 1 show ?thesis by (subst king_scan.simps) auto
  next
    case False
    with "1.prems" have lt: "sq < k" by (cases "sq = k") auto
    with "1.prems" have nb: "sq < SQUARE_NB" "\<not> (asserts \<and> sq + 1 = SQUARE_NB)" by auto
    from "1.IH" [OF _ False] nb lt "1.prems"
    obtain k' where k': "king_scan asserts pos UsKing (sq + 1) = Inr k'" "sq + 1 \<le> k'" "k' \<le> k"
        "piece_on pos k' = UsKing" "\<forall>j. sq + 1 \<le> j \<and> j < k' \<longrightarrow> piece_on pos j \<noteq> UsKing"
      by auto
    have "king_scan asserts pos UsKing sq = Inr k'"
      using False nb k'(1) by (subst king_scan.simps) simp
    moreover have "\<forall>j. sq \<le> j \<and> j < k' \<longrightarrow> piece_on pos j \<noteq> UsKing"
    proof (intro allI impI)
      fix j assume "sq \<le> j \<and> j < k'"
      then show "piece_on pos j \<noteq> UsKing"
        using False k'(5) by (cases "j = sq") auto
    qed
    ultimately show ?thesis using k' by auto
  qed
qed

lemma connected_passed_total:
  assumes "s < SQUARE_NB" "piece_on pos s = make_piece Us PAWN" "king_present Us pos"
  shows "\<exists>score'. connected_passed asserts Us pos e s score = Inr score'"
proof -
  from assms(3) obtain k where "k < SQUARE_NB" "piece_on pos k = make_piece Us KING"
    by (auto simp: king_present_def)
  with king_scan_finds [of SQ_A1 k pos "make_piece Us KING" asserts]
  obtain k' where "king_scan asserts pos (make_piece Us KING) SQ_A1 = Inr k'"
    by (auto simp: SQ_A1_def)
  with assms(1,2) show ?thesis
    by (simp add: connected_passed_def Let_def)
qed

lemma evaluate_total:
  assumes "valid_for Us pos" and "\<not> asserts \<or> Us = WHITE \<or> (\<forall>s \<in> set (pawnList pos Us). rank_of s < RANK_7)"
  shows "\<exists>r. evaluate asserts Conn Us pos e = Inr r"
proof -
  have "\<exists>st'. pawn_loop (score_pawn asserts Conn Us pos) (pawnList pos Us) (evaluate_init Us pos e, SCORE_ZERO) = Inr st'"
    using assms by (intro pawn_loop_total score_pawn_total) (auto simp: valid_for_def)
  then obtain st' where 1: "pawn_loop (score_pawn asserts Conn Us pos) (pawnList pos Us) (evaluate_init Us pos e, SCORE_ZERO) = Inr st'" ..
  have "\<exists>sc. pawn_loop (connected_passed asserts Us pos (fst st')) (pawnList pos Us) (snd st') = Inr sc"
    using assms by (intro pawn_loop_total connected_passed_total) (auto simp: valid_for_def)
  then obtain sc where 2: "pawn_loop (connected_passed asserts Us pos (fst st')) (pawnList pos Us) (snd st') = Inr sc" ..
  show ?thesis by (simp add: evaluate_def 1 2)
qed

lemma pawn_loop_fails:
  assumes "s \<in> set pl" and "\<And>st. body s st = Inl err"
    and "\<And>s st. s \<in> set pl \<Longrightarrow> (\<exists>st'. body s st = Inr st') \<or> body s st = Inl err"
  shows "pawn_loop body pl st = Inl err"
  using assms(1,3)
proof (induction pl arbitrary: st)
  case Nil
  then show ?case by simp
next
  case (Cons a pl)
  show ?case
  proof (cases "body a st")
    case (Inl e)
    with Cons.prems(2) [of a st] show ?thesis by auto
  next
    case (Inr st1)
    with assms(2) [of st] have "a \<noteq> s" by auto
    with Cons.prems(1) have "s \<in> set pl" by simp
    with Cons.IH [of st1] Cons.prems(2) Inr show ?thesis by simp
  qed
qed

lemma protected_passed_results:
  "(\<exists>score'. protected_passed asserts Us pos s score = Inr score')
   \<or> protected_passed asserts Us pos s score = Inl AssertionFailed"
  by (simp add: protected_passed_def Let_def)

lemma evaluate_assert:
  assumes "valid_for BLACK pos" and "s \<in> set (pawnList pos BLACK)" and "rank_of s = RANK_7"
  shows "evaluate True Conn BLACK pos e = Inl AssertionFailed"
proof -
  from assms have v: "s < SQUARE_NB" "piece_on pos s = make_piece BLACK PAWN" "RANK_2 \<le> rank_of s" "rank_of s \<le> RANK_7"
    by (auto simp: valid_for_def)
  have a: "\<And>st. score_pawn True Conn BLACK pos s st = Inl AssertionFailed"
    using assms(3) by (simp add: score_pawn_cases [OF v] protected_passed_assert)
  have b: "\<And>s st. s \<in> set (pawnList pos BLACK) \<Longrightarrow>
        (\<exists>st'. score_pawn True Conn BLACK pos s st = Inr st') \<or> score_pawn True Conn BLACK pos s st = Inl AssertionFailed"
  proof -
    fix s' st assume "s' \<in> set (pawnList pos BLACK)"
    with assms(1) have v: "s' < SQUARE_NB" "piece_on pos s' = make_piece BLACK PAWN" "RANK_2 \<le> rank_of s'" "rank_of s' \<le> RANK_7"
      by (auto simp: valid_for_def)
    show "(\<exists>st'. score_pawn True Conn BLACK pos s' st = Inr st') \<or> score_pawn True Conn BLACK pos s' st = Inl AssertionFailed"
      using protected_passed_results [of True BLACK pos s' "snd (flag_and_score Conn BLACK pos s' st)"]
      by (auto simp: score_pawn_cases [OF v])
  qed
  have "pawn_loop (score_pawn True Conn BLACK pos) (pawnList pos BLACK) (evaluate_init BLACK pos e, SCORE_ZERO) = Inl AssertionFailed"
    using assms(2) a b by (rule pawn_loop_fails)
  then show ?thesis by (simp add: evaluate_def)
qed

text \<open>Claim C9: in every valid position in which Black has a pawn on rank 7 (the
  starting position is one), the Black classifier of a build with assertions stops at
  \<^verbatim>\<open>assert(false)\<close> in the protected-passed-pawn block; without assertions the block
  is skipped for that pawn and the classifier returns; a White pawn on rank 2 skips the
  block with no assertion, and the White classifier returns.\<close>

theorem black_pawn_on_rank7_asserts:
  assumes "valid_for BLACK pos" and "s \<in> set (pawnList pos BLACK)" and "rank_of s = RANK_7"
  shows "evaluate True Conn BLACK pos e = Inl AssertionFailed
         \<and> protected_passed True BLACK pos s score = Inl AssertionFailed
         \<and> protected_passed False BLACK pos s score = Inr score
         \<and> (\<exists>r. evaluate False Conn BLACK pos e = Inr r)
         \<and> (\<forall>s'. rank_of s' = RANK_2 \<longrightarrow> protected_passed True WHITE pos s' score = Inr score)
         \<and> (valid_for WHITE pos \<longrightarrow> (\<exists>r. evaluate True Conn WHITE pos e = Inr r))"
proof -
  have "evaluate True Conn BLACK pos e = Inl AssertionFailed"
    using assms by (rule evaluate_assert)
  moreover have "protected_passed True BLACK pos s score = Inl AssertionFailed"
    using assms(3) by (simp add: protected_passed_assert)
  moreover have "protected_passed False BLACK pos s score = Inr score"
    using assms(3) by (simp add: protected_passed_def Let_def)
  moreover have "\<exists>r. evaluate False Conn BLACK pos e = Inr r"
    using assms(1) by (intro evaluate_total) simp_all
  moreover have "\<forall>s'. rank_of s' = RANK_2 \<longrightarrow> protected_passed True WHITE pos s' score = Inr score"
    by (simp add: protected_passed_def Let_def)
  moreover have "valid_for WHITE pos \<longrightarrow> (\<exists>r. evaluate True Conn WHITE pos e = Inr r)"
    by (intro impI evaluate_total) simp_all
  ultimately show ?thesis by blast
qed

lemma start_pos_valid: "valid_for BLACK start_pos \<and> valid_for WHITE start_pos \<and> 48 \<in> set (pawnList start_pos BLACK) \<and> rank_of 48 = RANK_7"
  by code_simp

theorem black_pawn_on_rank7_asserts_witness:
  "valid_for BLACK start_pos \<and> 48 \<in> set (pawnList start_pos BLACK) \<and> rank_of 48 = RANK_7
   \<and> valid_for WHITE start_pos
   \<and> evaluate True Connected BLACK start_pos Entry0 = Inl AssertionFailed
   \<and> (\<exists>r. evaluate False Connected BLACK start_pos Entry0 = Inr r)
   \<and> (\<exists>r. evaluate True Connected WHITE start_pos Entry0 = Inr r)"
  using black_pawn_on_rank7_asserts [of start_pos 48 Connected Entry0] start_pos_valid
  by blast


text \<open>Claim C8: for a colour without pawns the classifier returns the zero score,
  leaves the colour's passed pawns, pawn attacks and attack span empty, its
  weak-unopposed counter zero and all eight bits of its semi-open files set.\<close>

theorem evaluate_without_pawns:
  assumes "pawnList pos Us = []" and "pieces_cp pos Us = 0"
  shows "\<exists>e'. evaluate asserts Conn Us pos e = Inr (e', SCORE_ZERO)
              \<and> passedPawns e' Us = 0 \<and> pawnAttacks e' Us = 0 \<and> pawnAttacksSpan e' Us = 0
              \<and> weakUnopposed e' Us = 0 \<and> semiopenFiles e' Us = 0xFF"
  using assms
  by (cases Us) (simp_all add: evaluate_def evaluate_init_def ourPawns_def pawn_attacks_bb_def shift_def Let_def
       NORTH_def SOUTH_def EAST_def WEST_def NORTH_EAST_def NORTH_WEST_def SOUTH_EAST_def SOUTH_WEST_def)

theorem evaluate_without_pawns_witness:
  "pawnList lone_pawn_pos WHITE = [] \<and> pieces_cp lone_pawn_pos WHITE = 0
   \<and> (\<exists>e'. evaluate True Connected WHITE lone_pawn_pos Entry0 = Inr (e', SCORE_ZERO)
              \<and> passedPawns e' WHITE = 0 \<and> pawnAttacks e' WHITE = 0 \<and> pawnAttacksSpan e' WHITE = 0
              \<and> weakUnopposed e' WHITE = 0 \<and> semiopenFiles e' WHITE = 0xFF)"
proof -
  have h: "pawnList lone_pawn_pos WHITE = []" "pieces_cp lone_pawn_pos WHITE = 0"
    by (simp_all add: lone_pawn_pos_def set_up_def empty_position_def pieces_cp_def SquareBB_def)
  from evaluate_without_pawns [OF h, of True Connected Entry0] h show ?thesis by simp
qed

text \<open>When a king of the evaluated colour is on the board, the scan from A1 returns the
  first square holding it, having read only squares of the board, in either build.\<close>

lemma king_scan_returns:
  assumes "king_present Us pos"
  shows "\<exists>k. king_scan asserts pos (make_piece Us KING) SQ_A1 = Inr k \<and> k < SQUARE_NB
              \<and> piece_on pos k = make_piece Us KING
              \<and> (\<forall>j. j < k \<longrightarrow> piece_on pos j \<noteq> make_piece Us KING)"
proof -
  from assms obtain k where k: "k < SQUARE_NB" "piece_on pos k = make_piece Us KING"
    by (auto simp: king_present_def)
  from king_scan_finds [of SQ_A1 k pos "make_piece Us KING" asserts] k
  show ?thesis
    by (auto simp: SQ_A1_def)
qed

section \<open>The cache\<close>

lemma pawn_loop_invariant:
  assumes "pawn_loop body pl st = Inr st'" and "P st"
    and "\<And>s st st'. s \<in> set pl \<Longrightarrow> P st \<Longrightarrow> body s st = Inr st' \<Longrightarrow> P st'"
  shows "P st'"
  using assms
proof (induction pl arbitrary: st)
  case Nil
  then show ?case by simp
next
  case (Cons a pl)
  from Cons.prems(1) obtain st1 where 1: "body a st = Inr st1" "pawn_loop body pl st1 = Inr st'"
    by (auto split: sum.splits)
  from Cons.prems(3) [of a st st1] Cons.prems(2) 1 have p1: "P st1" by simp
  show ?case
  proof (rule Cons.IH [OF 1(2) p1])
    fix s st st' assume "s \<in> set pl" "P st" "body s st = Inr st'"
    then show "P st'" using Cons.prems(3) [of s st st'] by simp
  qed
qed

lemma flag_and_score_key:
  "key (fst (flag_and_score Conn Us pos s st)) = key (fst st)
   \<and> scores (fst (flag_and_score Conn Us pos s st)) = scores (fst st)"
  by (simp add: flag_and_score_def flag_passed_def score_structure_def bump_weakUnopposed_def Let_def)

lemma score_pawn_key:
  "score_pawn asserts Conn Us pos s st = Inr st' \<Longrightarrow>
     key (fst st') = key (fst st) \<and> scores (fst st') = scores (fst st)"
  by (auto simp: score_pawn_def flag_and_score_key split: if_splits sum.splits)

lemma evaluate_key:
  assumes "evaluate asserts Conn Us pos e = Inr r"
  shows "key (fst r) = key e \<and> scores (fst r) = scores e"
proof -
  from assms obtain st where st: "pawn_loop (score_pawn asserts Conn Us pos) (pawnList pos Us) (evaluate_init Us pos e, SCORE_ZERO) = Inr st"
    and r: "fst r = fst st"
    by (auto simp: evaluate_def split: sum.splits)
  have "key (fst st) = key e \<and> scores (fst st) = scores e"
  proof (rule pawn_loop_invariant [OF st, where P = "\<lambda>st. key (fst st) = key e \<and> scores (fst st) = scores e"])
    show "key (fst (evaluate_init Us pos e, SCORE_ZERO)) = key e \<and> scores (fst (evaluate_init Us pos e, SCORE_ZERO)) = scores e"
      by (simp add: evaluate_init_def Let_def)
  next
    fix s st st' assume "key (fst st) = key e \<and> scores (fst st) = scores e" "score_pawn asserts Conn Us pos s st = Inr st'"
    then show "key (fst st') = key e \<and> scores (fst st') = scores e" using score_pawn_key by metis
  qed
  with r show ?thesis by simp
qed

text \<open>A hit: the stored entry is returned and the table left as it was, without
  running the classifier.\<close>

lemma probe_hit:
  "key (table (slot (pawnKey pos))) = pawnKey pos \<Longrightarrow>
     probe asserts Conn pos table = Inr (table, table (slot (pawnKey pos)))"
  by (simp add: probe_def Let_def)

text \<open>Whatever \<open>probe\<close> returns has the position's pawn key and is the entry of the key's
  slot, the other slots untouched.\<close>

lemma probe_result_key:
  assumes p: "probe asserts Conn pos table = Inr (table', e')"
  shows "key e' = pawnKey pos \<and> table' (slot (pawnKey pos)) = e'
         \<and> (\<forall>i. i \<noteq> slot (pawnKey pos) \<longrightarrow> table' i = table i)"
proof (intro conjI allI impI)
  show "key e' = pawnKey pos"
  proof (cases "key (table (slot (pawnKey pos))) = pawnKey pos")
    case True
    with p show ?thesis by (auto simp: probe_def Let_def)
  next
    case False
    with p obtain rw rb where
      rw: "evaluate asserts Conn WHITE pos ((table (slot (pawnKey pos)))\<lparr>key := pawnKey pos\<rparr>) = Inr rw"
      and rb: "evaluate asserts Conn BLACK pos ((fst rw)\<lparr>scores := (scores (fst rw))(WHITE := snd rw)\<rparr>) = Inr rb"
      and e': "key e' = key (fst rb)"
      by (auto simp: probe_def Let_def split: sum.splits)
    from evaluate_key [OF rw] evaluate_key [OF rb] e' show ?thesis by simp
  qed
  show "table' (slot (pawnKey pos)) = e'"
    using p by (auto simp: probe_def Let_def split: if_splits sum.splits)
  fix i assume "i \<noteq> slot (pawnKey pos)"
  then show "table' i = table i"
    using p by (auto simp: probe_def Let_def split: if_splits sum.splits)
qed

text \<open>A miss on which both classifier runs return: the entry stored and returned is the
  one the Black run leaves, with the Black score and the two counters set; it carries
  the key and the White score.\<close>

lemma probe_miss:
  assumes "key (table (slot (pawnKey pos))) \<noteq> pawnKey pos"
    and rw: "evaluate asserts Conn WHITE pos ((table (slot (pawnKey pos)))\<lparr>key := pawnKey pos\<rparr>) = Inr rw"
    and rb: "evaluate asserts Conn BLACK pos ((fst rw)\<lparr>scores := (scores (fst rw))(WHITE := snd rw)\<rparr>) = Inr rb"
    and e': "e' = (fst rb)\<lparr>scores := (scores (fst rb))(BLACK := snd rb),
                 openFiles := popcount (word_of_int (semiopenFiles (fst rb) WHITE AND semiopenFiles (fst rb) BLACK)),
                 asymmetry := popcount ((passedPawns (fst rb) WHITE OR passedPawns (fst rb) BLACK)
                                       OR word_of_int (semiopenFiles (fst rb) WHITE XOR semiopenFiles (fst rb) BLACK))\<rparr>"
  shows "probe asserts Conn pos table = Inr (table(slot (pawnKey pos) := e'), e')
         \<and> key e' = pawnKey pos \<and> scores e' WHITE = snd rw \<and> scores e' BLACK = snd rb"
proof -
  have "probe asserts Conn pos table = Inr (table(slot (pawnKey pos) := e'), e')"
    using assms(1) by (simp add: probe_def Let_def rw rb e')
  moreover have "key e' = pawnKey pos \<and> scores e' WHITE = snd rw \<and> scores e' BLACK = snd rb"
    using evaluate_key [OF rw] evaluate_key [OF rb] by (simp add: e')
  ultimately show ?thesis by simp
qed

text \<open>Without assertions both runs return on a valid position, so \<open>probe\<close> returns.\<close>

lemma probe_release_returns:
  assumes "valid_for WHITE pos" and "valid_for BLACK pos"
  shows "\<exists>table' e'. probe False Conn pos table = Inr (table', e')"
proof (cases "key (table (slot (pawnKey pos))) = pawnKey pos")
  case True
  then show ?thesis by (simp add: probe_hit)
next
  case False
  from assms evaluate_total [of WHITE pos False Conn "(table (slot (pawnKey pos)))\<lparr>key := pawnKey pos\<rparr>"]
  obtain rw where rw: "evaluate False Conn WHITE pos ((table (slot (pawnKey pos)))\<lparr>key := pawnKey pos\<rparr>) = Inr rw"
    by auto
  from assms evaluate_total [of BLACK pos False Conn "(fst rw)\<lparr>scores := (scores (fst rw))(WHITE := snd rw)\<rparr>"]
  obtain rb where rb: "evaluate False Conn BLACK pos ((fst rw)\<lparr>scores := (scores (fst rw))(WHITE := snd rw)\<rparr>) = Inr rb"
    by auto
  from False rw rb show ?thesis by (simp add: probe_def Let_def)
qed

lemma start_pos_key: "pawnKey start_pos = 1"
  by code_simp

section \<open>Bitboards and the mirrored position\<close>

subsection \<open>Lowest set bit, population count\<close>

lemma nat_clear_lowest:
  "n > 0 \<Longrightarrow> \<exists>k. bit n k \<and> (\<forall>j<k. \<not> bit n j) \<and> (\<forall>m. bit (n AND (n - 1)) m \<longleftrightarrow> bit n m \<and> m \<noteq> k)" for n :: nat
proof (induction n rule: nat_bit_induct)
  case zero
  then show ?case by simp
next
  case (even n)
  then obtain k where k: "bit n k" "\<forall>j<k. \<not> bit n j" "\<forall>m. bit (n AND (n - 1)) m \<longleftrightarrow> bit n m \<and> m \<noteq> k"
    by auto
  from even have s: "2 * n - 1 = Suc (2 * (n - 1))" by simp
  have e: "2 * n AND (2 * n - 1) = 2 * (n AND (n - 1))"
  proof (rule bit_eqI)
    fix m show "bit (2 * n AND (2 * n - 1)) m \<longleftrightarrow> bit (2 * (n AND (n - 1))) m"
    proof (cases m)
      case 0
      then show ?thesis by (simp add: bit_0 even_and_iff)
    next
      case (Suc m')
      have "bit (2 * n AND Suc (2 * (n - 1))) (Suc m') \<longleftrightarrow> bit n m' \<and> bit (n - 1) m'"
        unfolding bit_and_iff by (simp add: bit_Suc)
      also have "\<dots> \<longleftrightarrow> bit (2 * (n AND (n - 1))) (Suc m')"
        by (simp add: bit_Suc bit_and_iff)
      finally show ?thesis using Suc s by simp
    qed
  qed
  show ?case
  proof (intro exI [of _ "Suc k"] conjI)
    show "bit (2 * n) (Suc k)" using k(1) by (simp add: bit_Suc)
    show "\<forall>j<Suc k. \<not> bit (2 * n) j"
      by (metis bit_0 bit_double_Suc_iff dvd_triv_left k(2) less_Suc_eq_0_disj)
    show "\<forall>m. bit (2 * n AND (2 * n - 1)) m \<longleftrightarrow> bit (2 * n) m \<and> m \<noteq> Suc k"
    proof
      fix m show "bit (2 * n AND (2 * n - 1)) m \<longleftrightarrow> bit (2 * n) m \<and> m \<noteq> Suc k"
        unfolding e using k(3) by (cases m) (simp_all add: bit_Suc bit_0)
    qed
  qed
next
  case (odd n)
  have e: "Suc (2 * n) AND (Suc (2 * n) - 1) = 2 * n"
  proof (rule bit_eqI)
    fix m show "bit (Suc (2 * n) AND (Suc (2 * n) - 1)) m \<longleftrightarrow> bit (2 * n) m"
    proof (cases m)
      case 0
      then show ?thesis by (simp add: bit_0 even_and_iff)
    next
      case (Suc m')
      have "bit (Suc (2 * n) AND 2 * n) (Suc m') \<longleftrightarrow> bit (2 * n) (Suc m')"
        unfolding bit_and_iff by (simp add: bit_Suc)
      then show ?thesis using Suc by simp
    qed
  qed
  show ?case
  proof (intro exI [of _ 0] conjI)
    show "bit (Suc (2 * n)) 0" by (simp add: bit_0)
    show "\<forall>j<0. \<not> bit (Suc (2 * n)) j" by simp
    show "\<forall>m. bit (Suc (2 * n) AND (Suc (2 * n) - 1)) m \<longleftrightarrow> bit (Suc (2 * n)) m \<and> m \<noteq> 0"
    proof
      fix m show "bit (Suc (2 * n) AND (Suc (2 * n) - 1)) m \<longleftrightarrow> bit (Suc (2 * n)) m \<and> m \<noteq> 0"
        unfolding e by (cases m) (simp_all add: bit_Suc bit_0)
    qed
  qed
qed

lemma word_clear_lowest:
  fixes b :: Bitboard
  assumes "b \<noteq> 0"
  shows "\<exists>k. bit b k \<and> (\<forall>j<k. \<not> bit b j) \<and> (\<forall>m. bit (b AND (b - 1)) m \<longleftrightarrow> bit b m \<and> m \<noteq> k)"
proof -
  from assms have pos: "unat b > 0" by (simp add: unat_gt_0)
  from nat_clear_lowest [OF pos] obtain k where
    k: "bit (unat b) k" "\<forall>j<k. \<not> bit (unat b) j"
       "\<forall>m. bit (unat b AND (unat b - 1)) m \<longleftrightarrow> bit (unat b) m \<and> m \<noteq> k"
    by auto
  have u: "unat (b AND (b - 1)) = unat b AND (unat b - 1)"
    using assms by (simp add: unsigned_and_eq unat_minus_one)
  have bu: "bit (unat w) m \<longleftrightarrow> bit w m" for w :: Bitboard and m
    by (simp add: bit_unsigned_iff)
  show ?thesis
    using k u bu [of b] bu [of "b AND (b - 1)"] by (intro exI [of _ k]) simp
qed

lemma find_upt_first:
  "find P [0 ..< n] = Some k \<longleftrightarrow> k < n \<and> P k \<and> (\<forall>j<k. \<not> P j)"
  by (auto simp: find_Some_iff)

lemma bit_nonzero: "b \<noteq> 0 \<Longrightarrow> \<exists>n<64. bit b n" for b :: Bitboard
proof (rule ccontr)
  assume nz: "b \<noteq> 0" and "\<not> (\<exists>n<64. bit b n)"
  then have "\<not> bit b n" for n
    using bit_imp_le_length [of b n] by auto
  then have "b = 0" by (intro bit_eqI) simp
  with nz show False by simp
qed

lemma nonzero_iff_bit: "b \<noteq> 0 \<longleftrightarrow> (\<exists>m. bit b m)" for b :: Bitboard
  using bit_nonzero [of b] by auto

lemma lsb_props:
  fixes b :: Bitboard
  assumes "b \<noteq> 0"
  shows "lsb b < 64 \<and> bit b (lsb b) \<and> (\<forall>j < lsb b. \<not> bit b j)"
proof -
  from bit_nonzero [OF assms] obtain n where "n < 64" "bit b n" by auto
  then have "find (bit b) [0 ..< 64] \<noteq> None"
    by (auto simp: find_None_iff)
  then obtain k where k: "find (bit b) [0 ..< 64] = Some k" by auto
  then have "lsb b = k" by (simp add: lsb_def)
  with k show ?thesis by (simp add: find_upt_first)
qed

lemma bit_pop_lsb:
  fixes b :: Bitboard
  assumes "b \<noteq> 0"
  shows "bit (b AND (b - 1)) m \<longleftrightarrow> bit b m \<and> m \<noteq> lsb b"
proof -
  from word_clear_lowest [OF assms] obtain k where
    k: "bit b k" "\<forall>j<k. \<not> bit b j" "\<forall>m. bit (b AND (b - 1)) m \<longleftrightarrow> bit b m \<and> m \<noteq> k"
    by auto
  from lsb_props [OF assms] k(1,2) have "lsb b = k"
    by (meson linorder_neqE_nat)
  with k(3) show ?thesis by simp
qed

lemma more_than_one_iff:
  "more_than_one b \<longleftrightarrow> (\<exists>i j. i \<noteq> j \<and> bit b i \<and> bit b j)"
proof (cases "b = 0")
  case True
  then show ?thesis by (simp add: more_than_one_def)
next
  case False
  have "more_than_one b \<longleftrightarrow> (\<exists>m. bit (b AND (b - 1)) m)"
    unfolding more_than_one_def by (rule nonzero_iff_bit)
  also have "\<dots> \<longleftrightarrow> (\<exists>m. bit b m \<and> m \<noteq> lsb b)"
    by (simp add: bit_pop_lsb [OF False])
  also have "\<dots> \<longleftrightarrow> (\<exists>i j. i \<noteq> j \<and> bit b i \<and> bit b j)"
    using lsb_props [OF False] by metis
  finally show ?thesis .
qed

lemma popcount_card: "popcount b = int (card {n. bit b n})"
proof -
  have "{n. bit b n} = set (filter (bit b) [0 ..< 64])"
    by (auto dest: bit_imp_le_length)
  then have "card {n. bit b n} = length (filter (bit b) [0 ..< 64])"
    using distinct_card [of "filter (bit b) [0 ..< 64]"] by simp
  then show ?thesis
    by (simp add: popcount_def)
qed

lemma passed_push_loop_eq:
  "passed_push_loop Us theirs s b passedUs =
     passedUs OR (if \<exists>sq. bit b sq \<and> \<not> more_than_one (theirs AND PawnAttacks Us sq)
                  then SquareBB s else 0)"
proof (induction Us theirs s b passedUs rule: passed_push_loop.induct)
  case (1 Us theirs s b passedUs)
  show ?case
  proof (cases "b = 0")
    case True
    then show ?thesis by (subst passed_push_loop.simps) simp
  next
    case False
    let ?ok = "\<lambda>sq. \<not> more_than_one (theirs AND PawnAttacks Us sq)"
    have split: "(\<exists>sq. bit b sq \<and> ?ok sq) \<longleftrightarrow> ?ok (lsb b) \<or> (\<exists>sq. bit (b AND (b - 1)) sq \<and> ?ok sq)"
      using lsb_props [OF False] by (auto simp: bit_pop_lsb [OF False])
    show ?thesis
      apply (subst passed_push_loop.simps)
      using False "1.IH" [OF False] split
      apply (simp add: pop_lsb_def)
      apply (auto simp: or.assoc)
      done
  qed
qed


subsection \<open>Bits of the masks\<close>

lemma bit_SquareBB: "bit (SquareBB s) n \<longleftrightarrow> n = s \<and> s < 64"
  by (auto simp: SquareBB_def bit_exp_iff)

lemma FileABB_bits: "\<forall>n \<in> set [0 ..< 64]. bit FileABB n \<longleftrightarrow> n mod 8 = 0"
  by code_simp

lemma bit_FileABB: "bit FileABB n \<longleftrightarrow> n < 64 \<and> n mod 8 = 0"
  using FileABB_bits bit_imp_le_length [of FileABB n] by auto

lemma FileBB_bits:
  "\<forall>f \<in> set [0 ..< 8]. \<forall>n \<in> set [0 ..< 64]. bit (FileBB f) n \<longleftrightarrow> n mod 8 = f"
  by code_simp

lemma bit_FileBB: "f < 8 \<Longrightarrow> bit (FileBB f) n \<longleftrightarrow> n < 64 \<and> n mod 8 = f"
  using FileBB_bits bit_imp_le_length [of "FileBB f" n] by auto

lemma bit_Rank1BB: "bit Rank1BB n \<longleftrightarrow> n < 8"
proof -
  have "bit (mask 8 :: Bitboard) n \<longleftrightarrow> n < 8"
    unfolding bit_mask_iff by auto
  moreover have "Rank1BB = mask 8" by (simp add: Rank1BB_def mask_eq_exp_minus_1)
  ultimately show ?thesis by (simp only:)
qed

lemma bit_RankBB: "bit (RankBB r) n \<longleftrightarrow> n < 64 \<and> n div 8 = r"
  unfolding RankBB_def bit_push_bit_iff bit_Rank1BB
  by auto

lemma bit_ForwardRanksBB:
  "bit (ForwardRanksBB c r) n \<longleftrightarrow>
     n < 64 \<and> (case c of WHITE \<Rightarrow> r < n div 8 | BLACK \<Rightarrow> n div 8 < r)"
  by (cases c) (auto simp: ForwardRanksBB_def bit_not_iff bit_mask_iff)

lemma bit_adjacent_files_bb:
  "f < 8 \<Longrightarrow> bit (adjacent_files_bb f) n \<longleftrightarrow> n < 64 \<and> (n mod 8 + 1 = f \<or> n mod 8 = f + 1)"
  by (auto simp: adjacent_files_bb_def bit_or_iff bit_FileBB FILE_A_def FILE_H_def)

lemma bit_FileHBB: "bit FileHBB n \<longleftrightarrow> n < 64 \<and> n mod 8 = 7"
  using bit_FileBB [of 7 n] by (simp add: FileBB_def FileHBB_def)

lemma bit_shift_NORTH: "bit (shift NORTH b) n \<longleftrightarrow> n < 64 \<and> 8 \<le> n \<and> bit b (n - 8)"
  by (auto simp: shift_def bit_push_bit_iff)

lemma bit_shift_SOUTH: "bit (shift SOUTH b) n \<longleftrightarrow> bit b (n + 8)"
  by (auto simp: shift_def SOUTH_def NORTH_def bit_drop_bit_eq add.commute)

lemma bit_pawn_attacks_bb:
  "bit (pawn_attacks_bb c b) n \<longleftrightarrow>
     (case c of
        WHITE \<Rightarrow> n < 64 \<and> ((7 \<le> n \<and> bit b (n - 7) \<and> (n - 7) mod 8 \<noteq> 0)
                          \<or> (9 \<le> n \<and> bit b (n - 9) \<and> (n - 9) mod 8 \<noteq> 7))
      | BLACK \<Rightarrow> (bit b (n + 9) \<and> (n + 9) mod 8 \<noteq> 0) \<or> (bit b (n + 7) \<and> (n + 7) mod 8 \<noteq> 7))"
  apply (cases c)
  apply (auto simp: pawn_attacks_bb_def shift_def bit_or_iff bit_push_bit_iff bit_drop_bit_eq bit_and_iff bit_not_iff
      bit_FileABB bit_FileHBB add.commute
      NORTH_def SOUTH_def EAST_def WEST_def NORTH_EAST_def NORTH_WEST_def SOUTH_EAST_def SOUTH_WEST_def
      dest: bit_imp_le_length)
  done


subsection \<open>The vertical flip\<close>

lemma flip_sq_all: "\<forall>s \<in> set [0 ..< 64]. flip_sq s = s + 56 - 16 * (s div 8)"
  by code_simp

lemma flip_sq_eq: "s < 64 \<Longrightarrow> flip_sq s = s + 56 - 16 * (s div 8)"
  using flip_sq_all by simp

lemma flip_sq_lt [simp]: "s < 64 \<Longrightarrow> flip_sq s < 64"
  by (simp add: flip_sq_eq)

lemma flip_sq_flip_sq [simp]: "s < 64 \<Longrightarrow> flip_sq (flip_sq s) = s"
  by (simp add: flip_sq_def make_square_def file_of_def rank_of_def)

lemma file_of_flip_sq [simp]: "file_of (flip_sq s) = file_of s"
  by (simp add: flip_sq_def make_square_def file_of_def rank_of_def)

lemma rank_of_flip_sq [simp]: "rank_of (flip_sq s) = 7 - rank_of s"
  by (simp add: flip_sq_def make_square_def file_of_def rank_of_def)

lemma bit_flip_bb: "bit (flip_bb b) n \<longleftrightarrow> n < 64 \<and> bit b (flip_sq n)"
  by (auto simp: flip_bb_def bit_horner_sum_bit_iff)

lemma flip_bb_and: "flip_bb (a AND b) = flip_bb a AND flip_bb b"
  by (rule bit_eqI) (auto simp: bit_flip_bb bit_and_iff)

lemma flip_bb_or: "flip_bb (a OR b) = flip_bb a OR flip_bb b"
  by (rule bit_eqI) (auto simp: bit_flip_bb bit_or_iff)

lemma flip_bb_xor: "flip_bb (a XOR b) = flip_bb a XOR flip_bb b"
  by (rule bit_eqI) (auto simp: bit_flip_bb bit_xor_iff)

lemma flip_bb_not: "flip_bb (NOT a) = NOT (flip_bb a)"
  by (rule bit_eqI) (auto simp: bit_flip_bb bit_not_iff)

lemmas flip_out = flip_bb_and [symmetric] flip_bb_or [symmetric] flip_bb_xor [symmetric]
  flip_bb_not [symmetric]

lemma flip_bb_0 [simp]: "flip_bb 0 = 0"
  by (rule bit_eqI) (simp add: bit_flip_bb)

lemma flip_bb_flip_bb [simp]: "flip_bb (flip_bb b) = b"
  by (rule bit_eqI) (auto simp: bit_flip_bb dest: bit_imp_le_length)

lemma flip_bb_eq_iff [simp]: "flip_bb a = flip_bb b \<longleftrightarrow> a = b"
  by (metis flip_bb_flip_bb)

lemma flip_bb_eq_0_iff [simp]: "flip_bb a = 0 \<longleftrightarrow> a = 0"
  by (metis flip_bb_flip_bb flip_bb_0)

lemma flip_SquareBB: "s < 64 \<Longrightarrow> flip_bb (SquareBB s) = SquareBB (flip_sq s)"
  by (rule bit_eqI) (auto simp: bit_flip_bb bit_SquareBB)

lemma flip_FileBB: "f < 8 \<Longrightarrow> flip_bb (FileBB f) = FileBB f"
  by (rule bit_eqI) (auto simp: bit_flip_bb bit_FileBB file_of_flip_sq [unfolded file_of_def])

lemma flip_adjacent_files_bb: "f < 8 \<Longrightarrow> flip_bb (adjacent_files_bb f) = adjacent_files_bb f"
  by (rule bit_eqI) (auto simp: bit_flip_bb bit_adjacent_files_bb file_of_flip_sq [unfolded file_of_def])

lemma flip_RankBB: "r < 8 \<Longrightarrow> flip_bb (RankBB r) = RankBB (7 - r)"
  by (rule bit_eqI) (auto simp: bit_flip_bb bit_RankBB rank_of_flip_sq [unfolded rank_of_def])

lemma flip_ForwardRanksBB: "r < 8 \<Longrightarrow> flip_bb (ForwardRanksBB c r) = ForwardRanksBB (opp c) (7 - r)"
  by (rule bit_eqI, cases c) (auto simp: bit_flip_bb bit_ForwardRanksBB rank_of_flip_sq [unfolded rank_of_def])


lemma flip_step_all:
  "\<forall>n \<in> set [0 ..< 64].
     ((7 \<le> flip_sq n \<and> (flip_sq n - 7) mod 8 \<noteq> 0) \<longleftrightarrow> (n + 9 < 64 \<and> (n + 9) mod 8 \<noteq> 0))
     \<and> (n + 9 < 64 \<longrightarrow> (n + 9) mod 8 \<noteq> 0 \<longrightarrow> flip_sq (n + 9) = flip_sq n - 7)
     \<and> ((9 \<le> flip_sq n \<and> (flip_sq n - 9) mod 8 \<noteq> 7) \<longleftrightarrow> (n + 7 < 64 \<and> (n + 7) mod 8 \<noteq> 7))
     \<and> (n + 7 < 64 \<longrightarrow> (n + 7) mod 8 \<noteq> 7 \<longrightarrow> flip_sq (n + 7) = flip_sq n - 9)
     \<and> (8 \<le> flip_sq n \<longleftrightarrow> n + 8 < 64)
     \<and> (n + 8 < 64 \<longrightarrow> flip_sq (n + 8) = flip_sq n - 8)
     \<and> ((flip_sq n + 9 < 64 \<and> (flip_sq n + 9) mod 8 \<noteq> 0) \<longleftrightarrow> (7 \<le> n \<and> (n - 7) mod 8 \<noteq> 0))
     \<and> (7 \<le> n \<longrightarrow> (n - 7) mod 8 \<noteq> 0 \<longrightarrow> flip_sq (n - 7) = flip_sq n + 9)
     \<and> ((flip_sq n + 7 < 64 \<and> (flip_sq n + 7) mod 8 \<noteq> 7) \<longleftrightarrow> (9 \<le> n \<and> (n - 9) mod 8 \<noteq> 7))
     \<and> (9 \<le> n \<longrightarrow> (n - 9) mod 8 \<noteq> 7 \<longrightarrow> flip_sq (n - 9) = flip_sq n + 7)
     \<and> (flip_sq n + 8 < 64 \<longleftrightarrow> 8 \<le> n)
     \<and> (8 \<le> n \<longrightarrow> flip_sq (n - 8) = flip_sq n + 8)"
  by code_simp

lemma flip_step_a:
  assumes "n < 64"
  shows "(7 \<le> flip_sq n \<and> (flip_sq n - 7) mod 8 \<noteq> 0) \<longleftrightarrow> (n + 9 < 64 \<and> (n + 9) mod 8 \<noteq> 0)"
    and "n + 9 < 64 \<Longrightarrow> (n + 9) mod 8 \<noteq> 0 \<Longrightarrow> flip_sq (n + 9) = flip_sq n - 7"
    and "(9 \<le> flip_sq n \<and> (flip_sq n - 9) mod 8 \<noteq> 7) \<longleftrightarrow> (n + 7 < 64 \<and> (n + 7) mod 8 \<noteq> 7)"
    and "n + 7 < 64 \<Longrightarrow> (n + 7) mod 8 \<noteq> 7 \<Longrightarrow> flip_sq (n + 7) = flip_sq n - 9"
    and "8 \<le> flip_sq n \<longleftrightarrow> n + 8 < 64"
    and "n + 8 < 64 \<Longrightarrow> flip_sq (n + 8) = flip_sq n - 8"
  using assms flip_step_all by simp_all

lemma flip_step_b:
  assumes "n < 64"
  shows "(flip_sq n + 9 < 64 \<and> (flip_sq n + 9) mod 8 \<noteq> 0) \<longleftrightarrow> (7 \<le> n \<and> (n - 7) mod 8 \<noteq> 0)"
    and "7 \<le> n \<Longrightarrow> (n - 7) mod 8 \<noteq> 0 \<Longrightarrow> flip_sq (n - 7) = flip_sq n + 9"
    and "(flip_sq n + 7 < 64 \<and> (flip_sq n + 7) mod 8 \<noteq> 7) \<longleftrightarrow> (9 \<le> n \<and> (n - 9) mod 8 \<noteq> 7)"
    and "9 \<le> n \<Longrightarrow> (n - 9) mod 8 \<noteq> 7 \<Longrightarrow> flip_sq (n - 9) = flip_sq n + 7"
    and "flip_sq n + 8 < 64 \<longleftrightarrow> 8 \<le> n"
    and "8 \<le> n \<Longrightarrow> flip_sq (n - 8) = flip_sq n + 8"
  using assms flip_step_all by simp_all

lemma flip_pawn_attacks_bb: "flip_bb (pawn_attacks_bb c b) = pawn_attacks_bb (opp c) (flip_bb b)"
proof (rule bit_eqI)
  fix n
  show "bit (flip_bb (pawn_attacks_bb c b)) n \<longleftrightarrow> bit (pawn_attacks_bb (opp c) (flip_bb b)) n"
  proof (cases "n < 64")
    case False
    then show ?thesis
      by (cases c) (auto simp: bit_flip_bb bit_pawn_attacks_bb)
  next
    case True
    note a = flip_step_a [OF True] and b = flip_step_b [OF True]
    show ?thesis
    proof (cases c)
      case WHITE
      have "(7 \<le> flip_sq n \<and> bit b (flip_sq n - 7) \<and> (flip_sq n - 7) mod 8 \<noteq> 0)
             \<longleftrightarrow> (n + 9 < 64 \<and> bit b (flip_sq (n + 9)) \<and> (n + 9) mod 8 \<noteq> 0)"
        using a(1,2) by metis
      moreover have "(9 \<le> flip_sq n \<and> bit b (flip_sq n - 9) \<and> (flip_sq n - 9) mod 8 \<noteq> 7)
             \<longleftrightarrow> (n + 7 < 64 \<and> bit b (flip_sq (n + 7)) \<and> (n + 7) mod 8 \<noteq> 7)"
        using a(3,4) by metis
      ultimately show ?thesis
        using True WHITE by (simp add: bit_flip_bb bit_pawn_attacks_bb)
    next
      case BLACK
      have lt: "bit b m \<Longrightarrow> m < 64" for m
        using bit_imp_le_length [of b m] by simp
      have "(bit b (flip_sq n + 9) \<and> (flip_sq n + 9) mod 8 \<noteq> 0)
             \<longleftrightarrow> (7 \<le> n \<and> bit b (flip_sq (n - 7)) \<and> (n - 7) mod 8 \<noteq> 0)"
        using b(1,2) lt by metis
      moreover have "(bit b (flip_sq n + 7) \<and> (flip_sq n + 7) mod 8 \<noteq> 7)
             \<longleftrightarrow> (9 \<le> n \<and> bit b (flip_sq (n - 9)) \<and> (n - 9) mod 8 \<noteq> 7)"
        using b(3,4) lt by metis
      moreover have "n - 7 < 64" "n - 9 < 64" using True by simp_all
      ultimately show ?thesis
        using True BLACK by (simp add: bit_flip_bb bit_pawn_attacks_bb)
    qed
  qed
qed


lemma opp_opp [simp]: "opp (opp c) = c"
  by (cases c) simp_all

lemma Up_opp: "Up (opp c) = - Up c"
  by (cases c) (simp_all add: Up_def NORTH_def SOUTH_def)

lemma bit_shift_Up:
  "bit (shift (Up c) b) n \<longleftrightarrow>
     (case c of WHITE \<Rightarrow> n < 64 \<and> 8 \<le> n \<and> bit b (n - 8) | BLACK \<Rightarrow> bit b (n + 8))"
  by (cases c) (simp_all add: Up_def bit_shift_NORTH bit_shift_SOUTH)

lemma flip_shift_Up: "flip_bb (shift (Up c) b) = shift (Up (opp c)) (flip_bb b)"
proof (rule bit_eqI)
  fix n
  have lt: "bit b m \<Longrightarrow> m < 64" for m
    using bit_imp_le_length [of b m] by simp
  show "bit (flip_bb (shift (Up c) b)) n \<longleftrightarrow> bit (shift (Up (opp c)) (flip_bb b)) n"
  proof (cases "n < 64")
    case False
    then show ?thesis
      by (cases c) (auto simp: bit_flip_bb bit_shift_Up)
  next
    case True
    note a = flip_step_a [OF True] and b = flip_step_b [OF True]
    show ?thesis
    proof (cases c)
      case WHITE
      have "(8 \<le> flip_sq n \<and> bit b (flip_sq n - 8)) \<longleftrightarrow> (n + 8 < 64 \<and> bit b (flip_sq (n + 8)))"
        using a(5,6) by metis
      then show ?thesis
        using True WHITE
        by (simp add: bit_flip_bb bit_shift_Up)
    next
      case BLACK
      have "bit b (flip_sq n + 8) \<longleftrightarrow> (8 \<le> n \<and> bit b (flip_sq (n - 8)))"
        using b(5,6) lt by metis
      moreover have "n - 8 < 64" using True by simp
      ultimately show ?thesis
        using True BLACK
        by (simp add: bit_flip_bb bit_shift_Up)
    qed
  qed
qed

lemma bits_flip_image: "{n. bit (flip_bb b) n} = flip_sq ` {n. bit b n}"
proof -
  have lt: "bit b m \<Longrightarrow> m < 64" for m
    using bit_imp_le_length [of b m] by simp
  show ?thesis
  proof (intro set_eqI iffI)
    fix n assume "n \<in> {n. bit (flip_bb b) n}"
    then have "n < 64" "bit b (flip_sq n)" by (simp_all add: bit_flip_bb)
    then have "flip_sq (flip_sq n) = n" "flip_sq n \<in> {n. bit b n}" by simp_all
    then show "n \<in> flip_sq ` {n. bit b n}" by (metis imageI)
  next
    fix n assume "n \<in> flip_sq ` {n. bit b n}"
    then obtain m where "bit b m" "n = flip_sq m" by auto
    with lt [of m] show "n \<in> {n. bit (flip_bb b) n}" by (simp add: bit_flip_bb)
  qed
qed

lemma popcount_flip [simp]: "popcount (flip_bb b) = popcount b"
proof -
  have lt: "bit b m \<Longrightarrow> m < 64" for m
    using bit_imp_le_length [of b m] by simp
  have "inj_on flip_sq {n. bit b n}"
    by (rule inj_on_inverseI [where g = flip_sq]) (simp add: lt)
  then show ?thesis
    by (simp add: popcount_card bits_flip_image card_image)
qed

lemma more_than_one_flip [simp]: "more_than_one (flip_bb b) = more_than_one b"
proof -
  have lt: "bit b m \<Longrightarrow> m < 64" for m
    using bit_imp_le_length [of b m] by simp
  have "(\<exists>i j. i \<noteq> j \<and> bit (flip_bb b) i \<and> bit (flip_bb b) j) \<longleftrightarrow> (\<exists>i j. i \<noteq> j \<and> bit b i \<and> bit b j)"
  proof
    assume "\<exists>i j. i \<noteq> j \<and> bit (flip_bb b) i \<and> bit (flip_bb b) j"
    then obtain i j where "i \<noteq> j" "i < 64" "j < 64" "bit b (flip_sq i)" "bit b (flip_sq j)"
      by (auto simp: bit_flip_bb)
    moreover from this have "flip_sq i \<noteq> flip_sq j" by (metis flip_sq_flip_sq)
    ultimately show "\<exists>i j. i \<noteq> j \<and> bit b i \<and> bit b j" by blast
  next
    assume "\<exists>i j. i \<noteq> j \<and> bit b i \<and> bit b j"
    then obtain i j where ij: "i \<noteq> j" "bit b i" "bit b j" by auto
    with lt have "i < 64" "j < 64" by auto
    with ij have "flip_sq i \<noteq> flip_sq j" "bit (flip_bb b) (flip_sq i)" "bit (flip_bb b) (flip_sq j)"
      by (metis flip_sq_flip_sq, simp_all add: bit_flip_bb)
    then show "\<exists>i j. i \<noteq> j \<and> bit (flip_bb b) i \<and> bit (flip_bb b) j" by blast
  qed
  then show ?thesis by (simp add: more_than_one_iff)
qed

lemma DarkSquares_bits: "\<forall>n \<in> set [0 ..< 64]. bit DarkSquares n \<longleftrightarrow> \<not> bit DarkSquares (flip_sq n)"
  by code_simp

lemma flip_DarkSquares: "flip_bb DarkSquares = NOT DarkSquares"
proof (rule bit_eqI)
  fix n
  show "bit (flip_bb DarkSquares) n \<longleftrightarrow> bit (NOT DarkSquares) n"
  proof (cases "n < 64")
    case True
    then have "n \<in> set [0 ..< 64]" by simp
    from bspec [OF DarkSquares_bits this]
    have eq: "bit DarkSquares n \<longleftrightarrow> \<not> bit DarkSquares (flip_sq n)" .
    have "bit (flip_bb DarkSquares) n \<longleftrightarrow> bit DarkSquares (flip_sq n)"
      using True by (simp add: bit_flip_bb)
    also have "\<dots> \<longleftrightarrow> \<not> bit DarkSquares n"
      using eq by blast
    also have "\<dots> \<longleftrightarrow> bit (NOT DarkSquares) n"
      using True by (simp add: bit_not_iff)
    finally show ?thesis .
  next
    case False
    then show ?thesis by (simp add: bit_flip_bb bit_not_iff)
  qed
qed

lemma file_rank_lt: "s < 64 \<Longrightarrow> file_of s < 8 \<and> rank_of s < 8"
  by (simp add: file_of_def rank_of_def)

lemma flip_PawnAttacks: "s < 64 \<Longrightarrow> PawnAttacks (opp c) (flip_sq s) = flip_bb (PawnAttacks c s)"
  by (simp add: PawnAttacks_def flip_pawn_attacks_bb flip_SquareBB)

lemma flip_forward_file_bb: "s < 64 \<Longrightarrow> forward_file_bb (opp c) (flip_sq s) = flip_bb (forward_file_bb c s)"
  using file_rank_lt [of s] by (simp add: forward_file_bb_def flip_ForwardRanksBB flip_FileBB flip_bb_and)

lemma flip_pawn_attack_span: "s < 64 \<Longrightarrow> pawn_attack_span (opp c) (flip_sq s) = flip_bb (pawn_attack_span c s)"
  using file_rank_lt [of s] by (simp add: pawn_attack_span_def flip_ForwardRanksBB flip_adjacent_files_bb flip_bb_and)

lemma flip_passed_pawn_mask: "s < 64 \<Longrightarrow> passed_pawn_mask (opp c) (flip_sq s) = flip_bb (passed_pawn_mask c s)"
  by (simp add: passed_pawn_mask_def flip_forward_file_bb flip_pawn_attack_span flip_bb_or)

lemma flip_rank_bb: "s < 64 \<Longrightarrow> rank_bb (flip_sq s) = flip_bb (rank_bb s)"
  using file_rank_lt [of s] by (simp add: rank_bb_def flip_RankBB)

lemma relative_rank_flip: "s < 64 \<Longrightarrow> relative_rank (opp c) (flip_sq s) = relative_rank c s"
  using file_rank_lt [of s] by (cases c) (simp_all add: relative_rank_def relative_rank_r_def)

lemma sq_add_flip:
  assumes "8 \<le> s" "s < 56"
  shows "sq_add (flip_sq s) (Up (opp c)) = flip_sq (sq_add s (Up c))"
    and "sq_add (flip_sq s) (- Up (opp c)) = flip_sq (sq_add s (- Up c))"
    and "sq_add s (Up c) < 64" and "sq_add s (- Up c) < 64"
    and "8 \<le> flip_sq s" and "flip_sq s < 56"
  using assms flip_step_a(5,6) [of s] flip_step_b(5,6) [of s] flip_step_a(5) [of "s - 8"] flip_step_b(5) [of "s + 8"]
  by (cases c; simp add: sq_add_def Up_def NORTH_def SOUTH_def nat_add_distrib nat_diff_distrib)+


subsection \<open>The local variables in the mirrored position\<close>

lemma ourPawns_mirror [simp]: "ourPawns (opp Us) (mirror pos k) = flip_bb (ourPawns Us pos)"
  by (simp add: ourPawns_def pieces_cp_def mirror_def flip_out)

lemma theirPawns_mirror [simp]: "theirPawns (opp Us) (mirror pos k) = flip_bb (theirPawns Us pos)"
  by (simp add: theirPawns_def pieces_cp_def mirror_def flip_out)

lemma piece_on_mirror: "x < 64 \<Longrightarrow> piece_on (mirror pos k) (flip_sq x) = flip_piece (piece_on pos x)"
  by (simp add: piece_on_def mirror_def)

lemma flip_piece_eq: "flip_piece p = make_piece (opp c) pt \<longleftrightarrow> p = make_piece c pt"
proof (cases p)
  case NO_PIECE
  then show ?thesis by (simp add: make_piece_def)
next
  case (Pc c' pt')
  then show ?thesis by (cases c; cases c') (simp_all add: make_piece_def)
qed

lemma opposed_mirror: "s < 64 \<Longrightarrow> opposed (opp Us) (mirror pos k) (flip_sq s) = opposed Us pos s"
  by (simp add: opposed_def flip_forward_file_bb flip_out)

lemma stoppers_mirror: "s < 64 \<Longrightarrow> stoppers (opp Us) (mirror pos k) (flip_sq s) = flip_bb (stoppers Us pos s)"
  by (simp add: stoppers_def flip_passed_pawn_mask flip_out)

lemma lever_mirror: "s < 64 \<Longrightarrow> lever (opp Us) (mirror pos k) (flip_sq s) = flip_bb (lever Us pos s)"
  by (simp add: lever_def flip_PawnAttacks flip_out)

lemma leverPush_mirror:
  "8 \<le> s \<Longrightarrow> s < 56 \<Longrightarrow> leverPush (opp Us) (mirror pos k) (flip_sq s) = flip_bb (leverPush Us pos s)"
  by (simp add: leverPush_def sq_add_flip flip_PawnAttacks flip_out)

lemma doubled_mirror:
  "8 \<le> s \<Longrightarrow> s < 56 \<Longrightarrow> doubled (opp Us) (mirror pos k) (flip_sq s) = flip_bb (doubled Us pos s)"
  by (simp add: doubled_def sq_add_flip flip_SquareBB [symmetric] flip_out)

lemma neighbours_mirror: "s < 64 \<Longrightarrow> neighbours (opp Us) (mirror pos k) (flip_sq s) = flip_bb (neighbours Us pos s)"
  using file_rank_lt [of s] flip_adjacent_files_bb [of "file_of s"]
  by (simp add: neighbours_def flip_bb_and)

lemma phalanx_mirror: "s < 64 \<Longrightarrow> phalanx (opp Us) (mirror pos k) (flip_sq s) = flip_bb (phalanx Us pos s)"
  by (simp add: phalanx_def neighbours_mirror flip_rank_bb flip_out)

lemma supported_mirror:
  "8 \<le> s \<Longrightarrow> s < 56 \<Longrightarrow> supported (opp Us) (mirror pos k) (flip_sq s) = flip_bb (supported Us pos s)"
  by (simp add: supported_def neighbours_mirror sq_add_flip flip_rank_bb flip_out)

lemma backward_mirror:
  assumes "8 \<le> s" "s < 56"
  shows "backward (opp Us) (mirror pos k) (flip_sq s) = backward Us pos s"
proof -
  note sf = sq_add_flip [OF assms]
  have 1: "ourPawns (opp Us) (mirror pos k)
             AND pawn_attack_span (opp (opp Us)) (sq_add (flip_sq s) (Up (opp Us)))
           = flip_bb (ourPawns Us pos AND pawn_attack_span (opp Us) (sq_add s (Up Us)))"
    using flip_pawn_attack_span [of "sq_add s (Up Us)" "opp Us"] sf by (simp add: flip_out)
  have 2: "stoppers (opp Us) (mirror pos k) (flip_sq s)
             AND (leverPush (opp Us) (mirror pos k) (flip_sq s)
                  OR SquareBB (sq_add (flip_sq s) (Up (opp Us))))
           = flip_bb (stoppers Us pos s AND (leverPush Us pos s OR SquareBB (sq_add s (Up Us))))"
    using assms sf by (simp add: stoppers_mirror leverPush_mirror flip_SquareBB [symmetric] flip_out)
  show ?thesis
    by (simp only: backward_def 1 2 flip_bb_eq_0_iff)
qed

lemma passed1_mirror: "s < 64 \<Longrightarrow> passed1 (opp Us) (mirror pos k) (flip_sq s) = passed1 Us pos s"
  by (simp add: passed1_def flip_passed_pawn_mask flip_out)


lemma ex_bit_flip: "(\<exists>sq. bit (flip_bb b) sq \<and> P sq) \<longleftrightarrow> (\<exists>sq. bit b sq \<and> P (flip_sq sq))"
proof -
  have lt: "bit b m \<Longrightarrow> m < 64" for m
    using bit_imp_le_length [of b m] by simp
  show ?thesis
  proof
    assume "\<exists>sq. bit (flip_bb b) sq \<and> P sq"
    then obtain sq where "sq < 64" "bit b (flip_sq sq)" "P sq" by (auto simp: bit_flip_bb)
    then have "bit b (flip_sq sq) \<and> P (flip_sq (flip_sq sq))" by simp
    then show "\<exists>sq. bit b sq \<and> P (flip_sq sq)" ..
  next
    assume "\<exists>sq. bit b sq \<and> P (flip_sq sq)"
    then obtain sq where "bit b sq" "P (flip_sq sq)" by auto
    with lt [of sq] have "bit (flip_bb b) (flip_sq sq) \<and> P (flip_sq sq)" by (simp add: bit_flip_bb)
    then show "\<exists>sq. bit (flip_bb b) sq \<and> P sq" ..
  qed
qed

lemma push_ok_mirror:
  "(\<exists>sq. bit (flip_bb b) sq \<and> \<not> more_than_one (flip_bb theirs AND PawnAttacks (opp Us) sq))
   \<longleftrightarrow> (\<exists>sq. bit b sq \<and> \<not> more_than_one (theirs AND PawnAttacks Us sq))"
proof -
  have lt: "bit b m \<Longrightarrow> m < 64" for m
    using bit_imp_le_length [of b m] by simp
  have "bit b sq \<Longrightarrow>
          more_than_one (flip_bb theirs AND PawnAttacks (opp Us) (flip_sq sq))
          = more_than_one (theirs AND PawnAttacks Us sq)" for sq
    using lt [of sq] by (simp add: flip_PawnAttacks flip_out)
  then show ?thesis
    unfolding ex_bit_flip by blast
qed

lemma flag_passed_fields:
  "pawnAttacks (flag_passed Us pos s e) = pawnAttacks e"
  "pawnAttacksSpan (flag_passed Us pos s e) = pawnAttacksSpan e"
  "semiopenFiles (flag_passed Us pos s e) = semiopenFiles e"
  "weakUnopposed (flag_passed Us pos s e) = weakUnopposed e"
  "pawnsOnSquares (flag_passed Us pos s e) = pawnsOnSquares e"
  by (simp_all add: flag_passed_def)

lemma flag_passed_eq:
  "passedPawns (flag_passed Us pos s e) Us =
     passedPawns e Us OR (if candidate_passed Us pos s \<or> blocked_passed Us pos s then SquareBB s else 0)"
  by (auto simp: flag_passed_def blocked_passed_def passed_push_loop_eq)

lemma candidate_passed_mirror:
  assumes "8 \<le> s" "s < 56"
  shows "candidate_passed (opp Us) (mirror pos k) (flip_sq s) = candidate_passed Us pos s"
proof -
  from assms have s: "s < 64" by simp
  show ?thesis
    unfolding candidate_passed_def
    using assms s
    by (simp add: stoppers_mirror lever_mirror leverPush_mirror supported_mirror phalanx_mirror
          flip_forward_file_bb flip_out)
qed

lemma blocked_passed_mirror:
  assumes "8 \<le> s" "s < 56"
  shows "blocked_passed (opp Us) (mirror pos k) (flip_sq s) = blocked_passed Us pos s"
proof -
  from assms have s: "s < 64" by simp
  note sf = sq_add_flip [OF assms]
  have b: "shift (Up (opp Us)) (supported (opp Us) (mirror pos k) (flip_sq s)) AND NOT (flip_bb (theirPawns Us pos))
           = flip_bb (shift (Up Us) (supported Us pos s) AND NOT (theirPawns Us pos))"
    using assms by (simp add: supported_mirror flip_shift_Up [symmetric] flip_out)
  have st: "stoppers (opp Us) (mirror pos k) (flip_sq s) = SquareBB (sq_add (flip_sq s) (Up (opp Us)))
             \<longleftrightarrow> stoppers Us pos s = SquareBB (sq_add s (Up Us))"
    using s sf by (simp add: stoppers_mirror flip_SquareBB [symmetric])
  show ?thesis
    using s by (simp add: blocked_passed_def st b push_ok_mirror relative_rank_flip)
qed


lemma score_structure_fields:
  "passedPawns (fst (score_structure Conn Us pos s st)) = passedPawns (fst st)"
  "pawnAttacks (fst (score_structure Conn Us pos s st)) = pawnAttacks (fst st)"
  "pawnAttacksSpan (fst (score_structure Conn Us pos s st)) = pawnAttacksSpan (fst st)"
  "semiopenFiles (fst (score_structure Conn Us pos s st)) = semiopenFiles (fst st)"
  "pawnsOnSquares (fst (score_structure Conn Us pos s st)) = pawnsOnSquares (fst st)"
  by (simp_all add: score_structure_def bump_weakUnopposed_def Let_def case_prod_beta)

lemma score_structure_mirror:
  assumes "8 \<le> s" "s < 56" and "weakUnopposed e2 (opp Us) = weakUnopposed e1 Us"
  shows "weakUnopposed (fst (score_structure Conn (opp Us) (mirror pos k) (flip_sq s) (e2, sc))) (opp Us)
           = weakUnopposed (fst (score_structure Conn Us pos s (e1, sc))) Us"
    and "snd (score_structure Conn (opp Us) (mirror pos k) (flip_sq s) (e2, sc))
           = snd (score_structure Conn Us pos s (e1, sc))"
proof -
  from assms have s: "s < 64" by simp
  show "weakUnopposed (fst (score_structure Conn (opp Us) (mirror pos k) (flip_sq s) (e2, sc))) (opp Us)
           = weakUnopposed (fst (score_structure Conn Us pos s (e1, sc))) Us"
    using assms s
    by (simp add: score_structure_def Let_def case_prod_beta bump_weakUnopposed_def supported_mirror phalanx_mirror
          neighbours_mirror backward_mirror opposed_mirror doubled_mirror relative_rank_flip flip_out)
  show "snd (score_structure Conn (opp Us) (mirror pos k) (flip_sq s) (e2, sc))
           = snd (score_structure Conn Us pos s (e1, sc))"
    using assms s
    by (simp add: score_structure_def Let_def case_prod_beta bump_weakUnopposed_def supported_mirror phalanx_mirror
          neighbours_mirror backward_mirror opposed_mirror doubled_mirror relative_rank_flip flip_out)
qed

lemma flag_and_score_mirror:
  assumes "8 \<le> s" "s < 56" and "mirrored Us e1 e2"
  shows "mirrored Us (fst (flag_and_score Conn Us pos s (e1, sc)))
           (fst (flag_and_score Conn (opp Us) (mirror pos k) (flip_sq s) (e2, sc)))"
    and "snd (flag_and_score Conn (opp Us) (mirror pos k) (flip_sq s) (e2, sc))
           = snd (flag_and_score Conn Us pos s (e1, sc))"
proof -
  from assms have s: "s < 64" by simp
  let ?a1 = "flag_passed Us pos s
               (e1\<lparr>semiopenFiles := (semiopenFiles e1)(Us := semiopenFiles e1 Us AND NOT (push_bit (file_of s) 1)),
                   pawnAttacksSpan := (pawnAttacksSpan e1)(Us := pawnAttacksSpan e1 Us OR pawn_attack_span Us s)\<rparr>)"
  let ?a2 = "flag_passed (opp Us) (mirror pos k) (flip_sq s)
               (e2\<lparr>semiopenFiles := (semiopenFiles e2)(opp Us := semiopenFiles e2 (opp Us) AND NOT (push_bit (file_of (flip_sq s)) 1)),
                   pawnAttacksSpan := (pawnAttacksSpan e2)(opp Us := pawnAttacksSpan e2 (opp Us) OR pawn_attack_span (opp Us) (flip_sq s))\<rparr>)"
  have f1: "flag_and_score Conn Us pos s (e1, sc) = score_structure Conn Us pos s (?a1, sc)"
    by (simp add: flag_and_score_def Let_def)
  have f2: "flag_and_score Conn (opp Us) (mirror pos k) (flip_sq s) (e2, sc)
              = score_structure Conn (opp Us) (mirror pos k) (flip_sq s) (?a2, sc)"
    by (simp add: flag_and_score_def Let_def)
  have w: "weakUnopposed ?a2 (opp Us) = weakUnopposed ?a1 Us"
    using assms(3) by (simp add: flag_passed_fields mirrored_def)
  have p: "passedPawns ?a2 (opp Us) = flip_bb (passedPawns ?a1 Us)"
    using assms s
    by (simp add: flag_passed_eq candidate_passed_mirror blocked_passed_mirror mirrored_def
          flip_bb_or flip_SquareBB)
  show "mirrored Us (fst (flag_and_score Conn Us pos s (e1, sc)))
           (fst (flag_and_score Conn (opp Us) (mirror pos k) (flip_sq s) (e2, sc)))"
    unfolding f1 f2 mirrored_def
    using assms(3) s p score_structure_mirror(1) [OF assms(1,2) w]
    by (simp add: score_structure_fields flag_passed_fields mirrored_def flip_pawn_attack_span flip_bb_or)
  show "snd (flag_and_score Conn (opp Us) (mirror pos k) (flip_sq s) (e2, sc))
           = snd (flag_and_score Conn Us pos s (e1, sc))"
    unfolding f1 f2 using score_structure_mirror(2) [OF assms(1,2) w] by simp
qed


lemma make_square_flip: "f < 8 \<Longrightarrow> r < 8 \<Longrightarrow> flip_sq (make_square f r) = make_square f (7 - r)"
  by (simp add: flip_sq_def make_square_def file_of_def rank_of_def)

lemma make_square_lt: "f < 8 \<Longrightarrow> r < 8 \<Longrightarrow> make_square f r < 64"
  by (simp add: make_square_def)

lemma pawn_at_mirror:
  assumes "f < 8" "r < 8"
  shows "(make_piece (opp Us) PAWN = piece_on (mirror pos k) (make_square f (7 - r)))
         \<longleftrightarrow> (make_piece Us PAWN = piece_on pos (make_square f r))"
proof -
  have "make_square f r < 64" using assms by (rule make_square_lt)
  from piece_on_mirror [OF this, of pos k]
  have "piece_on (mirror pos k) (make_square f (7 - r)) = flip_piece (piece_on pos (make_square f r))"
    unfolding make_square_flip [OF assms] .
  then show ?thesis
    using flip_piece_eq [of "piece_on pos (make_square f r)" Us PAWN] by metis
qed

lemma protected_passed_white_eq:
  "protected_passed a WHITE pos s sc =
     Inr (if 1 < rank_of s \<and> passed1 WHITE pos s
             \<and> ((0 < file_of s
                   \<and> make_piece WHITE PAWN = piece_on pos (make_square (file_of s - 1) (rank_of s - 1)))
                  \<or> (file_of s < 7
                      \<and> make_piece WHITE PAWN = piece_on pos (make_square (file_of s + 1) (rank_of s - 1))))
          then score_add sc ProtectedPassedPawn else sc)"
  by (auto simp: protected_passed_def Let_def RANK_2_def RANK_7_def FILE_A_def FILE_H_def)

lemma protected_passed_black_eq:
  "protected_passed False BLACK pos s sc =
     Inr (if rank_of s < 6 \<and> passed1 BLACK pos s
             \<and> ((0 < file_of s
                   \<and> make_piece BLACK PAWN = piece_on pos (make_square (file_of s - 1) (rank_of s + 1)))
                  \<or> (file_of s < 7
                      \<and> make_piece BLACK PAWN = piece_on pos (make_square (file_of s + 1) (rank_of s + 1))))
          then score_add sc ProtectedPassedPawn else sc)"
  by (auto simp: protected_passed_def Let_def RANK_2_def RANK_7_def FILE_A_def FILE_H_def)

lemma protected_passed_mirror:
  assumes "8 \<le> s" "s < 56"
  shows "protected_passed False (opp Us) (mirror pos k) (flip_sq s) sc = protected_passed False Us pos s sc"
proof -
  from assms have s: "s < 64" by simp
  from assms have r: "1 \<le> rank_of s" "rank_of s \<le> 6" "file_of s < 8"
    by (simp_all add: rank_of_def file_of_def)
  let ?f = "file_of s" and ?r = "rank_of s"
  show ?thesis
  proof (cases Us)
    case WHITE
    have p: "passed1 BLACK (mirror pos k) (flip_sq s) = passed1 WHITE pos s"
      using passed1_mirror [OF s, of WHITE pos k] by simp
    have e: "7 - ?r + 1 = 7 - (?r - 1)" using r by simp
    have a: "(make_piece BLACK PAWN = piece_on (mirror pos k) (make_square (?f - 1) (7 - (?r - 1))))
             \<longleftrightarrow> (make_piece WHITE PAWN = piece_on pos (make_square (?f - 1) (?r - 1)))"
      using pawn_at_mirror [of "?f - 1" "?r - 1" WHITE pos k] r by simp
    have b: "(?f < 7 \<and> make_piece BLACK PAWN = piece_on (mirror pos k) (make_square (?f + 1) (7 - (?r - 1))))
             \<longleftrightarrow> (?f < 7 \<and> make_piece WHITE PAWN = piece_on pos (make_square (?f + 1) (?r - 1)))"
      using pawn_at_mirror [of "?f + 1" "?r - 1" WHITE pos k] r by auto
    have c: "7 - ?r < 6 \<longleftrightarrow> 1 < ?r" using r by auto
    have "protected_passed False BLACK (mirror pos k) (flip_sq s) sc = protected_passed False WHITE pos s sc"
      by (simp only: protected_passed_white_eq protected_passed_black_eq
            file_of_flip_sq rank_of_flip_sq p e a b c)
    then show ?thesis using WHITE by simp
  next
    case BLACK
    have p: "passed1 WHITE (mirror pos k) (flip_sq s) = passed1 BLACK pos s"
      using passed1_mirror [OF s, of BLACK pos k] by simp
    have e: "7 - ?r - 1 = 7 - (?r + 1)" using r by simp
    have a: "(make_piece WHITE PAWN = piece_on (mirror pos k) (make_square (?f - 1) (7 - (?r + 1))))
             \<longleftrightarrow> (make_piece BLACK PAWN = piece_on pos (make_square (?f - 1) (?r + 1)))"
      using pawn_at_mirror [of "?f - 1" "?r + 1" BLACK pos k] r by simp
    have b: "(?f < 7 \<and> make_piece WHITE PAWN = piece_on (mirror pos k) (make_square (?f + 1) (7 - (?r + 1))))
             \<longleftrightarrow> (?f < 7 \<and> make_piece BLACK PAWN = piece_on pos (make_square (?f + 1) (?r + 1)))"
      using pawn_at_mirror [of "?f + 1" "?r + 1" BLACK pos k] r by auto
    have c: "1 < 7 - ?r \<longleftrightarrow> ?r < 6" using r by auto
    have "protected_passed False WHITE (mirror pos k) (flip_sq s) sc = protected_passed False BLACK pos s sc"
      by (simp only: protected_passed_white_eq protected_passed_black_eq
            file_of_flip_sq rank_of_flip_sq p e a b c)
    then show ?thesis using BLACK by simp
  qed
qed


subsection \<open>The loops in the mirrored position\<close>

lemma up_bounds:
  "8 \<le> s \<Longrightarrow> s < 56 \<Longrightarrow>
     0 \<le> int s + Up c \<and> int s + Up c < 64 \<and> 0 \<le> int s - Up c \<and> int s - Up c < 64"
  by (cases c) (simp_all add: Up_def NORTH_def SOUTH_def)

lemma score_pawn_release:
  assumes "8 \<le> s" "s < 56"
  shows "\<exists>sc'. protected_passed False Us pos s (snd (flag_and_score Conn Us pos s st)) = Inr sc'
              \<and> score_pawn False Conn Us pos s st = Inr (fst (flag_and_score Conn Us pos s st), sc')"
proof -
  obtain sc' where 1: "protected_passed False Us pos s (snd (flag_and_score Conn Us pos s st)) = Inr sc'"
    by (cases Us) (simp_all add: protected_passed_white_eq protected_passed_black_eq)
  from assms have "s < SQUARE_NB" by (simp add: SQUARE_NB_def)
  with up_bounds [OF assms, of Us] 1 show ?thesis
    by (simp add: score_pawn_def)
qed

lemma score_pawn_mirror:
  assumes "8 \<le> s" "s < 56" and "mirrored Us e1 e2"
  shows "\<exists>e1' e2' sc'.
           score_pawn False Conn Us pos s (e1, sc) = Inr (e1', sc')
           \<and> score_pawn False Conn (opp Us) (mirror pos k) (flip_sq s) (e2, sc) = Inr (e2', sc')
           \<and> mirrored Us e1' e2'"
proof -
  note sf = sq_add_flip(5,6) [OF assms(1,2)]
  from score_pawn_release [OF assms(1,2), of Us pos Conn "(e1, sc)"]
  obtain sc1 where 1: "protected_passed False Us pos s (snd (flag_and_score Conn Us pos s (e1, sc))) = Inr sc1"
    "score_pawn False Conn Us pos s (e1, sc) = Inr (fst (flag_and_score Conn Us pos s (e1, sc)), sc1)"
    by auto
  from score_pawn_release [OF sf, of "opp Us" "mirror pos k" Conn "(e2, sc)"]
  obtain sc2 where 2: "protected_passed False (opp Us) (mirror pos k) (flip_sq s)
        (snd (flag_and_score Conn (opp Us) (mirror pos k) (flip_sq s) (e2, sc))) = Inr sc2"
    "score_pawn False Conn (opp Us) (mirror pos k) (flip_sq s) (e2, sc)
       = Inr (fst (flag_and_score Conn (opp Us) (mirror pos k) (flip_sq s) (e2, sc)), sc2)"
    by auto
  note m = flag_and_score_mirror [OF assms, where Conn = Conn and pos = pos and sc = sc and k = k]
  from 1(1) 2(1) m(2) protected_passed_mirror [OF assms(1,2), where Us = Us and pos = pos and k = k]
  have "sc2 = sc1" by simp
  with 1(2) 2(2) m(1) show ?thesis by simp
qed

lemma first_loop_mirror:
  assumes "\<forall>s \<in> set pl. 8 \<le> s \<and> s < 56" and "mirrored Us e1 e2"
  shows "\<exists>e1' e2' sc'.
           pawn_loop (score_pawn False Conn Us pos) pl (e1, sc) = Inr (e1', sc')
           \<and> pawn_loop (score_pawn False Conn (opp Us) (mirror pos k)) (map flip_sq pl) (e2, sc) = Inr (e2', sc')
           \<and> mirrored Us e1' e2'"
  using assms
proof (induction pl arbitrary: e1 e2 sc)
  case Nil
  then show ?case by simp
next
  case (Cons s pl)
  from Cons.prems have s: "8 \<le> s" "s < 56" by simp_all
  from score_pawn_mirror [OF s Cons.prems(2), where Conn = Conn and pos = pos and sc = sc and k = k]
  obtain a1 a2 sc1 where a:
    "score_pawn False Conn Us pos s (e1, sc) = Inr (a1, sc1)"
    "score_pawn False Conn (opp Us) (mirror pos k) (flip_sq s) (e2, sc) = Inr (a2, sc1)"
    "mirrored Us a1 a2"
    by blast
  from Cons.IH [OF _ a(3), where sc = sc1] Cons.prems(1)
  obtain e1' e2' sc' where
    "pawn_loop (score_pawn False Conn Us pos) pl (a1, sc1) = Inr (e1', sc')"
    "pawn_loop (score_pawn False Conn (opp Us) (mirror pos k)) (map flip_sq pl) (a2, sc1) = Inr (e2', sc')"
    "mirrored Us e1' e2'"
    by auto
  with a show ?case by simp
qed

lemma partner_scan_eq:
  "partner_scan Us pos passedUs f0 rs passed0 =
     ((\<exists>r0 \<in> set rs. piece_on pos (make_square f0 r0) = make_piece Us PAWN
                      \<and> passedUs AND SquareBB (make_square f0 r0) \<noteq> 0)
      \<or> (passed0 \<and> \<not> (\<exists>r0 \<in> set rs. piece_on pos (make_square f0 r0) = make_piece Us PAWN)))"
  by (induction rs arbitrary: passed0) auto

lemma partner_scan_mirror:
  assumes "f0 < 8"
  shows "partner_scan (opp Us) (mirror pos k) (flip_bb passedUs) f0 [RANK_2 ..< Suc RANK_7] False
         = partner_scan Us pos passedUs f0 [RANK_2 ..< Suc RANK_7] False"
proof -
  let ?P = "\<lambda>r0. piece_on pos (make_square f0 r0) = make_piece Us PAWN
                 \<and> passedUs AND SquareBB (make_square f0 r0) \<noteq> 0"
  let ?Q = "\<lambda>r0. piece_on (mirror pos k) (make_square f0 r0) = make_piece (opp Us) PAWN
                 \<and> flip_bb passedUs AND SquareBB (make_square f0 r0) \<noteq> 0"
  have pq: "?Q (7 - r0) = ?P r0" if "r0 < 8" for r0
  proof -
    have lt: "make_square f0 r0 < 64" using assms that by (rule make_square_lt)
    have "flip_bb passedUs AND SquareBB (make_square f0 (7 - r0))
          = flip_bb (passedUs AND SquareBB (make_square f0 r0))"
      using flip_SquareBB [OF lt] make_square_flip [OF assms that] by (simp add: flip_bb_and)
    moreover have "piece_on (mirror pos k) (make_square f0 (7 - r0)) = make_piece (opp Us) PAWN
           \<longleftrightarrow> piece_on pos (make_square f0 r0) = make_piece Us PAWN"
      using pawn_at_mirror [OF assms that, where Us = Us and pos = pos and k = k] by metis
    ultimately show ?thesis by simp
  qed
  have "(\<exists>r0 \<in> set [RANK_2 ..< Suc RANK_7]. ?Q r0) \<longleftrightarrow> (\<exists>r0 \<in> set [RANK_2 ..< Suc RANK_7]. ?P r0)"
  proof
    assume "\<exists>r0 \<in> set [RANK_2 ..< Suc RANK_7]. ?Q r0"
    then obtain r0 where r0: "1 \<le> r0" "r0 < 7" "?Q r0" by (auto simp: RANK_2_def RANK_7_def)
    then have "7 - (7 - r0) = r0" "7 - r0 < 8" "1 \<le> 7 - r0" "7 - r0 < 7" by simp_all
    with pq [of "7 - r0"] r0(3) have "?P (7 - r0)" by simp
    with \<open>1 \<le> 7 - r0\<close> \<open>7 - r0 < 7\<close> show "\<exists>r0 \<in> set [RANK_2 ..< Suc RANK_7]. ?P r0"
      by (auto simp: RANK_2_def RANK_7_def)
  next
    assume "\<exists>r0 \<in> set [RANK_2 ..< Suc RANK_7]. ?P r0"
    then obtain r0 where r0: "1 \<le> r0" "r0 < 7" "?P r0" by (auto simp: RANK_2_def RANK_7_def)
    then have "r0 < 8" "1 \<le> 7 - r0" "7 - r0 < 7" by simp_all
    with pq [of r0] r0(3) have "?Q (7 - r0)" by simp
    with \<open>1 \<le> 7 - r0\<close> \<open>7 - r0 < 7\<close> show "\<exists>r0 \<in> set [RANK_2 ..< Suc RANK_7]. ?Q r0"
      by (auto simp: RANK_2_def RANK_7_def)
  qed
  then show ?thesis
    by (simp only: partner_scan_eq) simp
qed


lemma one_kingD:
  assumes "one_king Us pos"
  shows "\<exists>k < 64. piece_on pos k = make_piece Us KING
           \<and> (\<forall>j < 64. piece_on pos j = make_piece Us KING \<longrightarrow> j = k)"
proof -
  let ?P = "\<lambda>k. piece_on pos k = make_piece Us KING"
  from assms obtain k where k: "filter ?P [0 ..< 64] = [k]"
    by (auto simp: one_king_def SQUARE_NB_def length_Suc_conv)
  then have "k \<in> set (filter ?P [0 ..< 64])" by simp
  then have 1: "k < 64" "?P k" by simp_all
  have "j = k" if "j < 64" "?P j" for j
  proof -
    from that have "j \<in> set (filter ?P [0 ..< 64])" by simp
    with k show ?thesis by simp
  qed
  with 1 show ?thesis by blast
qed

lemma king_scan_unique:
  assumes "k < 64" "piece_on pos k = K" "\<forall>j < 64. piece_on pos j = K \<longrightarrow> j = k"
  shows "king_scan asserts pos K SQ_A1 = Inr k"
proof -
  from king_scan_finds [of SQ_A1 k pos K asserts] assms(1,2)
  obtain k' where k': "king_scan asserts pos K SQ_A1 = Inr k'" "k' \<le> k" "piece_on pos k' = K"
    by (auto simp: SQ_A1_def SQUARE_NB_def)
  with assms(1,3) have "k' = k" by simp
  with k'(1) show ?thesis by simp
qed

lemma one_king_mirror:
  assumes "k < 64" "piece_on pos k = make_piece Us KING"
    "\<forall>j < 64. piece_on pos j = make_piece Us KING \<longrightarrow> j = k"
  shows "piece_on (mirror pos q) (flip_sq k) = make_piece (opp Us) KING"
    and "\<forall>j < 64. piece_on (mirror pos q) j = make_piece (opp Us) KING \<longrightarrow> j = flip_sq k"
proof -
  show "piece_on (mirror pos q) (flip_sq k) = make_piece (opp Us) KING"
    using assms(1,2) by (simp add: piece_on_mirror flip_piece_eq)
  show "\<forall>j < 64. piece_on (mirror pos q) j = make_piece (opp Us) KING \<longrightarrow> j = flip_sq k"
  proof (intro allI impI)
    fix j assume j: "j < 64" "piece_on (mirror pos q) j = make_piece (opp Us) KING"
    from j(1) piece_on_mirror [of "flip_sq j" pos q]
    have "piece_on (mirror pos q) j = flip_piece (piece_on pos (flip_sq j))" by simp
    with j(2) have "piece_on pos (flip_sq j) = make_piece Us KING"
      by (simp add: flip_piece_eq)
    with assms(3) j(1) have "flip_sq j = k" by simp
    with j(1) show "j = flip_sq k" by (metis flip_sq_flip_sq)
  qed
qed

lemma connected_passed_eq:
  assumes "s < 64" and "asserts \<longrightarrow> piece_on pos s = make_piece Us PAWN"
    and "king_scan asserts pos (make_piece Us KING) SQ_A1 = Inr k"
  shows "connected_passed asserts Us pos e s sc =
           Inr (if 0 < file_of s \<and> passed1 Us pos s
                   \<and> partner_scan Us pos (passedPawns e Us) (file_of s - 1) [RANK_2 ..< Suc RANK_7] False
                then (if file_of s - 1 \<le> file_of k \<and> file_of k \<le> (if file_of s < 7 then file_of s + 1 else file_of s)
                      then score_add (score_add sc PawnScoresConnectedPassed)
                             KingSafetyCompensationPawnScoresConnectedPassed
                      else score_add sc PawnScoresConnectedPassed)
                else sc)"
proof -
  from assms(1) have "s < SQUARE_NB" by (simp add: SQUARE_NB_def)
  with assms(2) show ?thesis
    by (auto simp: connected_passed_def Let_def assms(3) FILE_A_def FILE_H_def simp del: upt_Suc)
qed

lemma connected_passed_mirror:
  assumes "s < 64" and "one_king Us pos" and "passedPawns e2 (opp Us) = flip_bb (passedPawns e1 Us)"
  shows "connected_passed False (opp Us) (mirror pos q) e2 (flip_sq s) sc
         = connected_passed False Us pos e1 s sc"
proof -
  from one_kingD [OF assms(2)] obtain k where k: "k < 64" "piece_on pos k = make_piece Us KING"
    "\<forall>j < 64. piece_on pos j = make_piece Us KING \<longrightarrow> j = k"
    by blast
  have k1: "king_scan False pos (make_piece Us KING) SQ_A1 = Inr k"
    using k by (rule king_scan_unique)
  have k2: "king_scan False (mirror pos q) (make_piece (opp Us) KING) SQ_A1 = Inr (flip_sq k)"
    using one_king_mirror [OF k, of q] k(1) by (intro king_scan_unique) simp_all
  have f: "file_of s < 8" by (simp add: file_of_def)
  then have f0: "file_of s - 1 < 8" by simp
  have ps: "partner_scan (opp Us) (mirror pos q) (passedPawns e2 (opp Us)) (file_of s - 1) [RANK_2 ..< Suc RANK_7] False
            = partner_scan Us pos (passedPawns e1 Us) (file_of s - 1) [RANK_2 ..< Suc RANK_7] False"
    unfolding assms(3) using f0 by (rule partner_scan_mirror)
  have lt: "flip_sq s < 64" using assms(1) by simp
  show ?thesis
    by (simp only: connected_passed_eq [OF assms(1) _ k1] connected_passed_eq [OF lt _ k2]
          file_of_flip_sq ps passed1_mirror [OF assms(1)] simp_thms)
qed

lemma second_loop_mirror:
  assumes "\<forall>s \<in> set pl. s < 64" and "one_king Us pos"
    and "passedPawns e2 (opp Us) = flip_bb (passedPawns e1 Us)"
  shows "pawn_loop (connected_passed False (opp Us) (mirror pos q) e2) (map flip_sq pl) sc
         = pawn_loop (connected_passed False Us pos e1) pl sc"
  using assms(1)
proof (induction pl arbitrary: sc)
  case Nil
  then show ?case by simp
next
  case (Cons s pl)
  then have "s < 64" by simp
  from connected_passed_mirror [OF this assms(2,3), where q = q and sc = sc] Cons show ?case
    by (simp split: sum.splits)
qed


lemma pos_okD:
  assumes "pos_ok pos"
  shows "valid_for c pos" and "one_king c pos" and "distinct (pawnList pos c)"
    and "s < 64 \<Longrightarrow> bit (pieces_cp pos c) s \<longleftrightarrow> piece_on pos s = make_piece c PAWN"
    and "s < 64 \<Longrightarrow> piece_on pos s = make_piece c PAWN \<Longrightarrow> s \<in> set (pawnList pos c)"
  using assms by (cases c; simp add: pos_ok_def SQUARE_NB_def)+

lemma pawn_squares:
  assumes "valid_for c pos" and "s \<in> set (pawnList pos c)"
  shows "8 \<le> s" and "s < 56" and "piece_on pos s = make_piece c PAWN"
  using assms by (auto simp: valid_for_def rank_of_def RANK_2_def RANK_7_def SQUARE_NB_def)

lemma popcount_split: "popcount b = popcount (b AND m) + popcount (b AND NOT m)"
proof -
  have f: "finite {n. bit b n}"
    by (rule finite_subset [of _ "{..<64}"]) (auto dest: bit_imp_le_length)
  have 1: "{n. bit (b AND m) n} = {n. bit b n} \<inter> {n. bit m n}"
    by (auto simp: bit_and_iff)
  have 2: "{n. bit (b AND NOT m) n} = {n. bit b n} - {n. bit m n}"
    by (auto simp: bit_and_iff bit_not_iff dest: bit_imp_le_length)
  have "card {n. bit b n} = card ({n. bit b n} \<inter> {n. bit m n}) + card ({n. bit b n} - {n. bit m n})"
    using f by (metis card_Int_Diff)
  then show ?thesis
    by (simp add: popcount_card 1 2)
qed

lemma count_pawns_popcount:
  assumes "pos_ok pos"
  shows "count_pawns pos c = popcount (pieces_cp pos c)"
proof -
  note ok = pos_okD [OF assms, where c = c]
  have "set (pawnList pos c) = {n. bit (pieces_cp pos c) n}"
  proof (intro set_eqI iffI)
    fix s assume s: "s \<in> set (pawnList pos c)"
    from pawn_squares [OF ok(1) s] ok(4) [where s = s] show "s \<in> {n. bit (pieces_cp pos c) n}" by simp
  next
    fix s assume "s \<in> {n. bit (pieces_cp pos c) n}"
    then have b: "bit (pieces_cp pos c) s" by simp
    then have "s < 64" using bit_imp_le_length [of "pieces_cp pos c" s] by simp
    with b ok(4) [where s = s] ok(5) [where s = s] show "s \<in> set (pawnList pos c)" by simp
  qed
  then have "card {n. bit (pieces_cp pos c) n} = length (pawnList pos c)"
    using distinct_card [OF ok(3)] by simp
  then show ?thesis
    by (simp add: count_pawns_def popcount_card)
qed

lemma evaluate_init_mirror:
  assumes "pos_ok pos"
  shows "mirrored Us (evaluate_init Us pos e1) (evaluate_init (opp Us) (mirror pos q) e2)"
proof -
  let ?o = "ourPawns Us pos"
  have d: "popcount (flip_bb ?o AND DarkSquares) = popcount (?o AND NOT DarkSquares)"
  proof -
    have "flip_bb ?o AND DarkSquares = flip_bb (?o AND NOT DarkSquares)"
      using flip_DarkSquares by (simp add: flip_bb_and flip_bb_not)
    then show ?thesis by simp
  qed
  have c: "count_pawns (mirror pos q) (opp Us) = count_pawns pos Us"
    by (simp add: count_pawns_def mirror_def)
  have s: "count_pawns pos Us = popcount (?o AND DarkSquares) + popcount (?o AND NOT DarkSquares)"
    using count_pawns_popcount [OF assms, where c = Us] popcount_split [of ?o DarkSquares]
    by (simp add: ourPawns_def)
  show ?thesis
    by (simp add: mirrored_def evaluate_init_def Let_def d c s flip_pawn_attacks_bb)
qed


lemma evaluate_mirror:
  assumes "pos_ok pos"
  shows "\<exists>e1' e2' sc.
           evaluate False Conn Us pos e1 = Inr (e1', sc)
           \<and> evaluate False Conn (opp Us) (mirror pos q) e2 = Inr (e2', sc)
           \<and> mirrored Us e1' e2'"
proof -
  note ok = pos_okD(1,2) [OF assms, where c = Us]
  have sq: "\<forall>s \<in> set (pawnList pos Us). 8 \<le> s \<and> s < 56"
    using pawn_squares [OF ok(1)] by blast
  then have lt: "\<forall>s \<in> set (pawnList pos Us). s < 64" by auto
  have pl: "pawnList (mirror pos q) (opp Us) = map flip_sq (pawnList pos Us)"
    by (simp add: mirror_def)
  from first_loop_mirror [OF sq evaluate_init_mirror [OF assms],
      where Conn = Conn and sc = SCORE_ZERO and k = q and ?e1.1 = e1 and ?e2.1 = e2]
  obtain a1 a2 sc1 where a:
    "pawn_loop (score_pawn False Conn Us pos) (pawnList pos Us) (evaluate_init Us pos e1, SCORE_ZERO) = Inr (a1, sc1)"
    "pawn_loop (score_pawn False Conn (opp Us) (mirror pos q)) (map flip_sq (pawnList pos Us))
       (evaluate_init (opp Us) (mirror pos q) e2, SCORE_ZERO) = Inr (a2, sc1)"
    "mirrored Us a1 a2"
    by blast
  from a(3) have p: "passedPawns a2 (opp Us) = flip_bb (passedPawns a1 Us)"
    by (simp add: mirrored_def)
  note second = second_loop_mirror [OF lt ok(2) p, where q = q and sc = sc1]
  have "\<exists>sc. pawn_loop (connected_passed False Us pos a1) (pawnList pos Us) sc1 = Inr sc"
  proof (rule pawn_loop_total)
    fix s st assume "s \<in> set (pawnList pos Us)"
    with ok(1) show "\<exists>st'. connected_passed False Us pos a1 s st = Inr st'"
      by (intro connected_passed_total) (auto simp: valid_for_def)
  qed
  then obtain sc where sc: "pawn_loop (connected_passed False Us pos a1) (pawnList pos Us) sc1 = Inr sc" ..
  with second have sc2: "pawn_loop (connected_passed False (opp Us) (mirror pos q) a2)
       (map flip_sq (pawnList pos Us)) sc1 = Inr sc" by simp
  have "evaluate False Conn Us pos e1 = Inr (a1, sc)"
    by (simp add: evaluate_def a(1) sc)
  moreover have "evaluate False Conn (opp Us) (mirror pos q) e2 = Inr (a2, sc)"
    by (simp add: evaluate_def pl a(2) sc2)
  ultimately show ?thesis using a(3) by blast
qed

lemma pawn_loop_mono:
  assumes "pawn_loop b1 pl st = Inr st'" and "\<And>s st st'. b1 s st = Inr st' \<Longrightarrow> b2 s st = Inr st'"
  shows "pawn_loop b2 pl st = Inr st'"
  using assms(1)
proof (induction pl arbitrary: st)
  case Nil
  then show ?case by simp
next
  case (Cons s pl)
  from Cons.prems obtain st1 where 1: "b1 s st = Inr st1" "pawn_loop b1 pl st1 = Inr st'"
    by (auto split: sum.splits)
  from assms(2) [OF 1(1)] Cons.IH [OF 1(2)] show ?case by simp
qed

lemma king_scan_release:
  "king_scan asserts pos K sq = Inr k \<Longrightarrow> king_scan False pos K sq = Inr k"
proof (induction asserts pos K sq rule: king_scan.induct)
  case (1 asserts pos K sq)
  note e1 = king_scan.simps [of asserts pos K sq]
  note e2 = king_scan.simps [of False pos K sq]
  show ?case
  proof (cases "sq < SQUARE_NB")
    case False
    with "1.prems" e1 show ?thesis by simp
  next
    case lt: True
    show ?thesis
    proof (cases "piece_on pos sq = K")
      case True
      with lt "1.prems" e1 e2 show ?thesis by simp
    next
      case False
      with lt "1.prems" e1 have na: "\<not> (asserts \<and> sq + 1 = SQUARE_NB)"
        and nxt: "king_scan asserts pos K (sq + 1) = Inr k"
        by (auto split: if_splits)
      from "1.IH" [OF _ False na nxt] lt have "king_scan False pos K (sq + 1) = Inr k" by simp
      with lt False e2 show ?thesis by simp
    qed
  qed
qed

lemma protected_passed_drop_asserts:
  assumes "protected_passed True Us pos s sc = Inr sc'"
  shows "protected_passed False Us pos s sc = Inr sc'"
proof (cases "Us \<noteq> WHITE \<and> \<not> rank_of s < RANK_7")
  case True
  with assms show ?thesis by (simp add: protected_passed_def Let_def)
next
  case False
  then have "protected_passed True Us pos s sc = protected_passed False Us pos s sc"
    by (simp add: protected_passed_def Let_def)
  with assms show ?thesis by simp
qed

lemma score_pawn_drop_asserts:
  assumes a: "score_pawn True Conn Us pos s st = Inr st'"
  shows "score_pawn False Conn Us pos s st = Inr st'"
proof -
  from a have g: "s < SQUARE_NB"
    "0 \<le> int s + Up Us \<and> int s + Up Us < 64 \<and> 0 \<le> int s - Up Us \<and> int s - Up Us < 64"
    by (simp_all add: score_pawn_def split: if_splits)
  with a obtain sc' where sc': "protected_passed True Us pos s (snd (flag_and_score Conn Us pos s st)) = Inr sc'"
    "st' = (fst (flag_and_score Conn Us pos s st), sc')"
    by (auto simp: score_pawn_def split: if_splits sum.splits)
  from protected_passed_drop_asserts [OF sc'(1)] g sc'(2) show ?thesis
    by (simp add: score_pawn_def)
qed

lemma connected_passed_drop_asserts:
  assumes a: "connected_passed True Us pos e s sc = Inr sc'"
  shows "connected_passed False Us pos e s sc = Inr sc'"
proof -
  from a have g: "s < SQUARE_NB" by (simp add: connected_passed_def split: if_splits)
  let ?c = "file_of s - 1 \<noteq> file_of s \<and> passed1 Us pos s
            \<and> partner_scan Us pos (passedPawns e Us) (file_of s - 1) [RANK_2 ..< Suc RANK_7] False"
  show ?thesis
  proof (cases ?c)
    case True
    with a g obtain k where k: "king_scan True pos (make_piece Us KING) SQ_A1 = Inr k"
      by (cases "king_scan True pos (make_piece Us KING) SQ_A1")
         (auto simp: connected_passed_def Let_def FILE_A_def split: if_splits simp del: upt_Suc)
    from king_scan_release [OF k] k a g True show ?thesis
      by (auto simp: connected_passed_def Let_def FILE_A_def split: if_splits simp del: upt_Suc)
  next
    case False
    with a g show ?thesis
      by (auto simp: connected_passed_def Let_def FILE_A_def split: if_splits simp del: upt_Suc)
  qed
qed

lemma evaluate_release:
  assumes "evaluate True Conn Us pos e = Inr r"
  shows "evaluate False Conn Us pos e = Inr r"
proof -
  from assms obtain st sc where
    1: "pawn_loop (score_pawn True Conn Us pos) (pawnList pos Us) (evaluate_init Us pos e, SCORE_ZERO) = Inr st"
    and 2: "pawn_loop (connected_passed True Us pos (fst st)) (pawnList pos Us) (snd st) = Inr sc"
    and r: "r = (fst st, sc)"
    by (auto simp: evaluate_def split: sum.splits)
  from 1 have l1: "pawn_loop (score_pawn False Conn Us pos) (pawnList pos Us) (evaluate_init Us pos e, SCORE_ZERO) = Inr st"
    by (rule pawn_loop_mono) (rule score_pawn_drop_asserts)
  from 2 have l2: "pawn_loop (connected_passed False Us pos (fst st)) (pawnList pos Us) (snd st) = Inr sc"
    by (rule pawn_loop_mono) (rule connected_passed_drop_asserts)
  show ?thesis by (simp add: evaluate_def l1 l2 r)
qed


section \<open>The assertion of the protected-passed block, seen from the callers\<close>

lemma start_pos_black_king:
  "king_scan True start_pos (make_piece BLACK KING) SQ_A1 = Inr 60
   \<and> piece_on start_pos 60 = make_piece BLACK KING"
  by code_simp

lemma start_pos_aborts: "evaluate True Connected BLACK start_pos e = Inl AssertionFailed"
  using start_pos_valid evaluate_assert [of start_pos 48 Connected e] by simp

lemma start_pos_white: "\<exists>r. evaluate True Connected WHITE start_pos e = Inr r"
  using start_pos_valid evaluate_total [of WHITE start_pos True Connected e] by simp

lemma start_pos_ok: "pos_ok start_pos"
  by code_simp

lemma start_pos_mirror_valid:
  "valid_for BLACK (mirror start_pos 1) \<and> 48 \<in> set (pawnList (mirror start_pos 1) BLACK)"
  by code_simp

text \<open>Claim C1: at the starting position and a fresh table (a miss: the stored key is 0,
  the position's is 1) \<open>probe\<close> of a build with assertions returns no record: the White
  classifier returns, the Black one stops at the \<^verbatim>\<open>assert(false)\<close> of the
  protected-passed block (claim C9).  Without assertions \<open>probe\<close> returns a record with
  the position's key there.\<close>

theorem probe_aborts_on_start_pos:
  "key Entry0 \<noteq> pawnKey start_pos
   \<and> probe True Connected start_pos (\<lambda>_. Entry0) = Inl AssertionFailed
   \<and> (\<exists>table' e'. probe False Connected start_pos (\<lambda>_. Entry0) = Inr (table', e')
         \<and> key e' = pawnKey start_pos)"
proof -
  have miss: "key ((\<lambda>_. Entry0) (slot (pawnKey start_pos))) \<noteq> pawnKey start_pos"
    by (simp add: start_pos_key Entry0_def)
  obtain rw where rw: "evaluate True Connected WHITE start_pos (Entry0\<lparr>key := pawnKey start_pos\<rparr>) = Inr rw"
    using start_pos_white by blast
  have "probe True Connected start_pos (\<lambda>_. Entry0) = Inl AssertionFailed"
    using miss by (simp add: probe_def Let_def rw start_pos_aborts)
  moreover obtain table' e' where p: "probe False Connected start_pos (\<lambda>_. Entry0) = Inr (table', e')"
    using probe_release_returns [of start_pos Connected "\<lambda>_. Entry0"] start_pos_valid by blast
  moreover from probe_result_key [OF p] have "key e' = pawnKey start_pos" by simp
  ultimately show ?thesis using miss p by auto
qed

text \<open>Claim C10: at the starting position a Black king is on the board (on e8) and the
  scan from A1 finds it, yet the Black classifier of a build with assertions returns no
  result: it stops at the \<^verbatim>\<open>assert(false)\<close> of the protected-passed block (claim C9)
  before the second pass.  Without assertions it returns.\<close>

theorem classifier_aborts_with_king_present:
  "piece_on start_pos 60 = make_piece BLACK KING
   \<and> king_scan True start_pos (make_piece BLACK KING) SQ_A1 = Inr 60
   \<and> evaluate True Connected BLACK start_pos Entry0 = Inl AssertionFailed
   \<and> (\<exists>r. evaluate False Connected BLACK start_pos Entry0 = Inr r)"
proof -
  have "\<exists>r. evaluate False Connected BLACK start_pos Entry0 = Inr r"
    using start_pos_valid evaluate_total [of BLACK start_pos False Connected Entry0] by simp
  then show ?thesis using start_pos_black_king start_pos_aborts by simp
qed

text \<open>Claim C7: in a build with assertions the White classifier returns at the starting
  position, and the Black classifier stops at the mirrored position (the White pawns of
  rank 2 are Black pawns of rank 7 there, claim C9), so no Black score answers White's.
  Without assertions the two runs return the same score and mirrored aggregates.\<close>

theorem mirror_breaks_under_assertions:
  "(\<exists>r. evaluate True Connected WHITE start_pos Entry0 = Inr r)
   \<and> evaluate True Connected BLACK (mirror start_pos 1) Entry0 = Inl AssertionFailed
   \<and> (\<exists>e1 e2 sc. evaluate False Connected WHITE start_pos Entry0 = Inr (e1, sc)
          \<and> evaluate False Connected BLACK (mirror start_pos 1) Entry0 = Inr (e2, sc)
          \<and> mirrored WHITE e1 e2)"
proof -
  have "evaluate True Connected BLACK (mirror start_pos 1) Entry0 = Inl AssertionFailed"
    using start_pos_mirror_valid start_pos_valid
      evaluate_assert [of "mirror start_pos 1" 48 Connected Entry0] by simp
  moreover have "\<exists>e1 e2 sc. evaluate False Connected WHITE start_pos Entry0 = Inr (e1, sc)
          \<and> evaluate False Connected BLACK (mirror start_pos 1) Entry0 = Inr (e2, sc)
          \<and> mirrored WHITE e1 e2"
    using evaluate_mirror [OF start_pos_ok, of Connected WHITE Entry0 1 Entry0] by simp
  ultimately show ?thesis using start_pos_white by blast
qed

end
